theory Spec2Isabelle
  imports Complex_Main
begin

section \<open>Python values used by the program\<close>

text \<open>
  The program is a single Python module with two classes, \<open>Connect4\<close> (the board engine)
  and \<open>QLearningAgent\<close> (the tabular learner).  Cells of the board and the player to move
  are Python strings (\<open>" "\<close>, \<open>"R"\<close>, \<open>"Y"\<close>); they are modelled as HOL strings.  The only
  exceptions the modelled code can raise are \<open>IndexError\<close> (list subscript out of range)
  and \<open>ValueError\<close> (\<open>max\<close> of an empty sequence).

  The numbers of the learner (Q-values, \<open>alpha\<close>, \<open>gamma\<close>, rewards) range over a type
  \<open>'v\<close> that has an order, a zero and the arithmetic operations the code uses.  No law of
  arithmetic is assumed of it, so what is proved about the learner holds whether the
  operations are exact or rounded; only the maximum taken in \<open>update\<close> needs the order to
  be linear.  The functions \<open>print_board\<close> and \<open>play_game\<close> and the class \<open>Agent\<close> are
  outside the claims and are not modelled.
\<close>

datatype error = IndexError | ValueError

text \<open>
  Python list subscripts: an index \<open>i\<close> with \<open>0 \<le> i < n\<close> addresses element \<open>i\<close>, an index
  with \<open>-n \<le> i < 0\<close> addresses element \<open>i + n\<close>, every other index raises \<open>IndexError\<close>.
\<close>

definition norm_index :: "nat \<Rightarrow> int \<Rightarrow> error + nat" where
  "norm_index n i =
     (if 0 \<le> i \<and> i < int n then Inr (nat i)
      else if - int n \<le> i \<and> i < 0 then Inr (nat (i + int n))
      else Inl IndexError)"

definition getitem :: "'a list \<Rightarrow> int \<Rightarrow> error + 'a" where
  "getitem xs i = (case norm_index (length xs) i of Inl e \<Rightarrow> Inl e | Inr k \<Rightarrow> Inr (xs ! k))"

text \<open>
  A \<open>for\<close> loop whose body may \<open>return\<close>: the body yields \<open>Some r\<close> when it returns \<open>r\<close> and
  \<open>None\<close> when it falls through to the next iteration; an exception ends the loop.
\<close>

fun for_return :: "'i list \<Rightarrow> ('i \<Rightarrow> error + 'r option) \<Rightarrow> error + 'r option" where
  "for_return [] body = Inr None"
| "for_return (i # rest) body =
     (case body i of
        Inl e \<Rightarrow> Inl e
      | Inr (Some r) \<Rightarrow> Inr (Some r)
      | Inr None \<Rightarrow> for_return rest body)"

section \<open>The board engine: class \<open>Connect4\<close>\<close>

type_synonym board = "string list list"

record Connect4 =
  board :: board
  current_player :: string

text \<open>
  \<open>__init__\<close>: six rows of seven blank cells, red starts.  The comprehension builds a
  fresh list for every row, so no two rows share their cells and a board is a value: a
  list of rows, row 0 at the top.
\<close>

definition Connect4_init :: Connect4 where
  "Connect4_init = \<lparr>board = replicate 6 (replicate 7 '' ''), current_player = ''R''\<rparr>"

text \<open>
  \<open>play(col)\<close>.  The loop variable runs over \<open>range(5, 0, -1)\<close>, that is the rows
  \<open>5, 4, 3, 2, 1\<close>.  The body reads \<open>self.board[row][col]\<close>; on a blank cell it stores the
  mark of the player to move, flips the player and returns \<open>True\<close>.
\<close>

definition play_body :: "Connect4 \<Rightarrow> int \<Rightarrow> int \<Rightarrow> error + (bool \<times> Connect4) option" where
  "play_body s col row =
     (case norm_index (length (board s)) row of
        Inl e \<Rightarrow> Inl e
      | Inr i \<Rightarrow>
          (case norm_index (length (board s ! i)) col of
             Inl e \<Rightarrow> Inl e
           | Inr j \<Rightarrow>
               if board s ! i ! j = '' '' then
                 Inr (Some (True,
                   s\<lparr>board := (board s)[i := (board s ! i)[j := current_player s]],
                     current_player := (if current_player s = ''R'' then ''Y'' else ''R'')\<rparr>))
               else Inr None))"

definition play :: "int \<Rightarrow> Connect4 \<Rightarrow> error + (bool \<times> Connect4)" where
  "play col s =
     (case for_return [5, 4, 3, 2, 1] (play_body s col) of
        Inl e \<Rightarrow> Inl e
      | Inr (Some r) \<Rightarrow> Inr r
      | Inr None \<Rightarrow> Inr (False, s))"

text \<open>
  Statements in sequence, where the first may already have returned: \<open>and_then x y\<close> is the
  result of \<open>x\<close> if \<open>x\<close> raised or returned, and the result of \<open>y\<close> otherwise.
\<close>

definition and_then :: "error + 'r option \<Rightarrow> error + 'r option \<Rightarrow> error + 'r option" where
  "and_then x y = (case x of Inl e \<Rightarrow> Inl e | Inr (Some r) \<Rightarrow> Inr (Some r) | Inr None \<Rightarrow> y)"

text \<open>The subscript expression \<open>self.board[row][col]\<close>.\<close>

definition cell :: "board \<Rightarrow> int \<Rightarrow> int \<Rightarrow> error + string" where
  "cell b row col = (case getitem b row of Inl e \<Rightarrow> Inl e | Inr r \<Rightarrow> getitem r col)"

type_synonym pos = "int \<times> int"

text \<open>
  The chained comparison \<open>x1 == x2 == x3 == x4 != " "\<close> over four cells.  Python evaluates
  the operands from left to right, each at most once, and stops at the first comparison
  that is false.
\<close>

definition four_equal :: "board \<Rightarrow> pos \<Rightarrow> pos \<Rightarrow> pos \<Rightarrow> pos \<Rightarrow> error + bool" where
  "four_equal b p1 p2 p3 p4 =
     (case cell b (fst p1) (snd p1) of
        Inl e \<Rightarrow> Inl e
      | Inr x1 \<Rightarrow>
     (case cell b (fst p2) (snd p2) of
        Inl e \<Rightarrow> Inl e
      | Inr x2 \<Rightarrow>
     if x1 \<noteq> x2 then Inr False else
     (case cell b (fst p3) (snd p3) of
        Inl e \<Rightarrow> Inl e
      | Inr x3 \<Rightarrow>
     if x2 \<noteq> x3 then Inr False else
     (case cell b (fst p4) (snd p4) of
        Inl e \<Rightarrow> Inl e
      | Inr x4 \<Rightarrow>
     if x3 \<noteq> x4 then Inr False else Inr (x4 \<noteq> '' '')))))"

text \<open>
  One \<open>if\<close> statement of \<open>winner\<close>: when the four cells agree and are not blank, return the
  cell at the first of the four positions.  \<open>winner\<close> returns a string or \<open>None\<close>, so a
  returned value has type \<open>string option\<close>.
\<close>

definition check_line :: "board \<Rightarrow> pos \<Rightarrow> pos \<Rightarrow> pos \<Rightarrow> pos \<Rightarrow> error + string option option" where
  "check_line b p1 p2 p3 p4 =
     (case four_equal b p1 p2 p3 p4 of
        Inl e \<Rightarrow> Inl e
      | Inr False \<Rightarrow> Inr None
      | Inr True \<Rightarrow>
          (case cell b (fst p1) (snd p1) of Inl e \<Rightarrow> Inl e | Inr v \<Rightarrow> Inr (Some (Some v))))"

text \<open>The four loop nests of \<open>winner\<close>, in the order of the source.\<close>

definition check_rows :: "board \<Rightarrow> error + string option option" where
  "check_rows b =
     for_return [0..5] (\<lambda>row. for_return [0..3] (\<lambda>col.
       check_line b (row, col) (row, col + 1) (row, col + 2) (row, col + 3)))"

definition check_columns :: "board \<Rightarrow> error + string option option" where
  "check_columns b =
     for_return [0..6] (\<lambda>col. for_return [0..2] (\<lambda>row.
       check_line b (row, col) (row + 1, col) (row + 2, col) (row + 3, col)))"

definition check_diagonals :: "board \<Rightarrow> error + string option option" where
  "check_diagonals b =
     for_return [0..2] (\<lambda>row. for_return [0..3] (\<lambda>col.
       and_then
         (check_line b (row, col) (row + 1, col + 1) (row + 2, col + 2) (row + 3, col + 3))
         (check_line b (row, col + 3) (row + 1, col + 2) (row + 2, col + 1) (row + 3, col))))"

definition check_draw :: "board \<Rightarrow> error + string option option" where
  "check_draw b =
     for_return [0..6] (\<lambda>col.
       case cell b 0 col of
         Inl e \<Rightarrow> Inl e
       | Inr v \<Rightarrow> if v = '' '' then Inr (Some None) else Inr None)"

text \<open>
  \<open>winner()\<close>: a mark (\<open>Some ''R''\<close>, \<open>Some ''Y''\<close>) when a line is found, \<open>None\<close> while the
  game goes on, \<open>Some ''D''\<close> for a draw.
\<close>

definition winner :: "Connect4 \<Rightarrow> error + string option" where
  "winner s =
     (case and_then (check_rows (board s))
            (and_then (check_columns (board s))
              (and_then (check_diagonals (board s)) (check_draw (board s)))) of
        Inl e \<Rightarrow> Inl e
      | Inr (Some r) \<Rightarrow> Inr r
      | Inr None \<Rightarrow> Inr (Some ''D''))"

section \<open>The learner: class \<open>QLearningAgent\<close>\<close>

type_synonym 'v qtable = "(string \<times> int) \<rightharpoonup> 'v"

record 'v QLearningAgent =
  name :: string
  alpha :: 'v
  gamma :: 'v
  Q :: "'v qtable"

text \<open>
  \<open>__init__(self, alpha=0.1, gamma=0.9)\<close>: an omitted argument is \<open>None\<close> here and takes
  its default.  The body has four assignments and no \<open>raise\<close>.
\<close>

definition QLearningAgent_init ::
  "'v::{numeral,inverse} option \<Rightarrow> 'v option \<Rightarrow> error + 'v QLearningAgent" where
  "QLearningAgent_init alpha_arg gamma_arg =
     Inr \<lparr>name = ''QLearning Agent'',
          alpha = (case alpha_arg of None \<Rightarrow> 1 / 10 | Some a \<Rightarrow> a),
          gamma = (case gamma_arg of None \<Rightarrow> 9 / 10 | Some g \<Rightarrow> g),
          Q = Map.empty\<rparr>"

text \<open>\<open>get_state\<close>: the rows joined, then the row strings joined.\<close>

definition get_state :: "Connect4 \<Rightarrow> string" where
  "get_state env = concat (map concat (board env))"

text \<open>\<open>self.Q.get(key, 0)\<close>.\<close>

definition Q_get :: "'v::zero qtable \<Rightarrow> string \<times> int \<Rightarrow> 'v" where
  "Q_get q key = (case q key of None \<Rightarrow> 0 | Some v \<Rightarrow> v)"

text \<open>
  The comprehension \<open>[col for col in range(7) if env.play(col)]\<close>: \<open>play\<close> is called on
  every column in turn, each call on the environment the previous call left behind.
\<close>

fun valid_actions_of :: "int list \<Rightarrow> Connect4 \<Rightarrow> error + (int list \<times> Connect4)" where
  "valid_actions_of [] env = Inr ([], env)"
| "valid_actions_of (col # cols) env =
     (case play col env of
        Inl e \<Rightarrow> Inl e
      | Inr (ok, env') \<Rightarrow>
          (case valid_actions_of cols env' of
             Inl e \<Rightarrow> Inl e
           | Inr (acts, env'') \<Rightarrow> Inr (if ok then col # acts else acts, env'')))"

text \<open>
  The selection loop.  \<open>best_value\<close> starts at \<open>float('-inf')\<close>, written \<open>None\<close>; every
  stored value is greater than it.
\<close>

definition best_step ::
  "'v::{zero,ord} qtable \<Rightarrow> string \<Rightarrow> int \<Rightarrow> int \<times> 'v option \<Rightarrow> int \<times> 'v option" where
  "best_step q state action best =
     (let q_value = Q_get q (state, action) in
      if (case snd best of None \<Rightarrow> True | Some best_value \<Rightarrow> q_value > best_value)
      then (action, Some q_value) else best)"

text \<open>
  \<open>choose_action(env)\<close>.  The two random draws are parameters: \<open>u\<close> is the value of
  \<open>random.random()\<close> and \<open>k\<close> the value \<open>random.randint(0, 6)\<close> yields when it is called.
  The result is the returned action (\<open>None\<close> for Python's \<open>None\<close>) and the environment
  as the call leaves it.
\<close>

definition choose_action ::
  "'v::{zero,ord} QLearningAgent \<Rightarrow> Connect4 \<Rightarrow> real \<Rightarrow> int \<Rightarrow> error + (int option \<times> Connect4)" where
  "choose_action ag env u k =
     (let state = get_state env in
      if u < 1 / 10 then Inr (Some k, env)
      else
        (case valid_actions_of [0..6] env of
           Inl e \<Rightarrow> Inl e
         | Inr (valid_actions, env') \<Rightarrow>
             if valid_actions = [] then Inr (None, env')
             else Inr (Some (fst (fold (best_step (Q ag) state) valid_actions
                                    (hd valid_actions, None))), env')))"

text \<open>Python's \<open>max\<close> of a sequence: the first of the greatest elements; empty raises.\<close>

fun py_max :: "'v::ord list \<Rightarrow> error + 'v" where
  "py_max [] = Inl ValueError"
| "py_max (x # xs) = Inr (fold (\<lambda>y m. if y > m then y else m) xs x)"

text \<open>\<open>update(state, action, reward, next_state)\<close>.\<close>

definition update ::
  "'v::{zero,plus,minus,times,ord} QLearningAgent \<Rightarrow> string \<Rightarrow> int \<Rightarrow> 'v \<Rightarrow> string \<Rightarrow>
     error + 'v QLearningAgent" where
  "update ag state action reward next_state =
     (let q_value = Q_get (Q ag) (state, action) in
      case py_max (map (\<lambda>a. Q_get (Q ag) (next_state, a)) [0..6]) of
        Inl e \<Rightarrow> Inl e
      | Inr max_q_next \<Rightarrow>
          (let new_q_value = q_value + alpha ag * (reward + gamma ag * max_q_next - q_value)
           in Inr (ag\<lparr>Q := (Q ag)((state, action) \<mapsto> new_q_value)\<rparr>)))"

section \<open>Notions used in the statements\<close>

text \<open>
  A board as \<open>__init__\<close> builds it has six rows of seven cells.  On such a board none of
  the subscripts of \<open>play\<close> and \<open>winner\<close> raises.
\<close>

definition wf_board :: "board \<Rightarrow> bool" where
  "wf_board b \<longleftrightarrow> length b = 6 \<and> (\<forall>row \<in> set b. length row = 7)"

text \<open>The player after \<open>p\<close>, and the state after \<open>p\<close>'s mark has gone into row \<open>r\<close>, column \<open>c\<close>.\<close>

definition other_player :: "string \<Rightarrow> string" where
  "other_player p = (if p = ''R'' then ''Y'' else ''R'')"

definition place :: "Connect4 \<Rightarrow> nat \<Rightarrow> nat \<Rightarrow> Connect4" where
  "place s r c =
     s\<lparr>board := (board s)[r := (board s ! r)[c := current_player s]],
       current_player := other_player (current_player s)\<rparr>"

text \<open>
  The row of column \<open>c\<close> that \<open>play\<close> fills: the first blank one among rows
  \<open>5, 4, 3, 2, 1\<close>, if there is one.
\<close>

definition lowest_blank :: "board \<Rightarrow> nat \<Rightarrow> nat option" where
  "lowest_blank b c = find (\<lambda>r. b ! r ! c = '' '') [5, 4, 3, 2, 1]"

text \<open>A sequence of \<open>play\<close> calls, one per column of the list, whatever each call returns.\<close>

fun play_seq :: "int list \<Rightarrow> Connect4 \<Rightarrow> error + Connect4" where
  "play_seq [] s = Inr s"
| "play_seq (col # cols) s =
     (case play col s of Inl e \<Rightarrow> Inl e | Inr (ok, s') \<Rightarrow> play_seq cols s')"

text \<open>
  Lines of four cells.  A line is the four positions (row, column) in the order in which
  the comparison of \<open>winner\<close> reads them; its mark is the cell at the first position.
\<close>

type_synonym line = "(nat \<times> nat) \<times> (nat \<times> nat) \<times> (nat \<times> nat) \<times> (nat \<times> nat)"

definition cell_at :: "board \<Rightarrow> nat \<times> nat \<Rightarrow> string" where
  "cell_at b p = b ! fst p ! snd p"

fun wins :: "board \<Rightarrow> line \<Rightarrow> bool" where
  "wins b (p1, p2, p3, p4) \<longleftrightarrow>
     cell_at b p1 = cell_at b p2 \<and> cell_at b p2 = cell_at b p3 \<and>
     cell_at b p3 = cell_at b p4 \<and> cell_at b p4 \<noteq> '' ''"

fun mark_of :: "board \<Rightarrow> line \<Rightarrow> string" where
  "mark_of b (p1, p2, p3, p4) = cell_at b p1"

text \<open>
  The horizontal line starting at (r, c), the vertical line starting there, the diagonal
  running down and right from (r, c), and the diagonal running down and left from
  (r, c + 3).
\<close>

definition hline :: "nat \<Rightarrow> nat \<Rightarrow> line" where
  "hline r c = ((r, c), (r, c + 1), (r, c + 2), (r, c + 3))"

definition vline :: "nat \<Rightarrow> nat \<Rightarrow> line" where
  "vline r c = ((r, c), (r + 1, c), (r + 2, c), (r + 3, c))"

definition dline :: "nat \<Rightarrow> nat \<Rightarrow> line" where
  "dline r c = ((r, c), (r + 1, c + 1), (r + 2, c + 2), (r + 3, c + 3))"

definition aline :: "nat \<Rightarrow> nat \<Rightarrow> line" where
  "aline r c = ((r, c + 3), (r + 1, c + 2), (r + 2, c + 1), (r + 3, c))"

text \<open>
  The order of precedence as the specification words it: the horizontal lines row by row
  from the top, each row from the left; then the vertical lines column by column from the
  left, each column from the top; then the diagonals by starting row from the top and
  starting column from the left.
\<close>

definition horizontal_lines :: "line list" where
  "horizontal_lines = concat (map (\<lambda>r. map (\<lambda>c. hline r c) [0..<4]) [0..<6])"

definition vertical_lines :: "line list" where
  "vertical_lines = concat (map (\<lambda>c. map (\<lambda>r. vline r c) [0..<3]) [0..<7])"

definition diagonal_lines :: "line list" where
  "diagonal_lines =
     concat (map (\<lambda>r. concat (map (\<lambda>c. [dline r c, aline r c]) [0..<4])) [0..<3])"

definition scan_order :: "line list" where
  "scan_order = horizontal_lines @ vertical_lines @ diagonal_lines"

text \<open>The outcome of a search for a line, as a loop of \<open>winner\<close> reports it.\<close>

definition found :: "board \<Rightarrow> line option \<Rightarrow> error + string option option" where
  "found b m = (case m of None \<Rightarrow> Inr None | Some l \<Rightarrow> Inr (Some (Some (mark_of b l))))"

text \<open>Concrete states and, with real numbers for its values, a concrete agent.\<close>

definition five_in_column_0 :: Connect4 where
  "five_in_column_0 =
     \<lparr>board =
        [['' '', '' '', '' '', '' '', '' '', '' '', '' ''],
         [''R'', '' '', '' '', '' '', '' '', '' '', '' ''],
         [''Y'', '' '', '' '', '' '', '' '', '' '', '' ''],
         [''R'', '' '', '' '', '' '', '' '', '' '', '' ''],
         [''Y'', '' '', '' '', '' '', '' '', '' '', '' ''],
         [''R'', '' '', '' '', '' '', '' '', '' '', '' '']],
      current_player = ''Y''\<rparr>"

definition full_board_env :: Connect4 where
  "full_board_env = \<lparr>board = replicate 6 (replicate 7 ''R''), current_player = ''R''\<rparr>"

definition default_agent :: "real QLearningAgent" where
  "default_agent =
     \<lparr>name = ''QLearning Agent'', alpha = 1 / 10, gamma = 9 / 10, Q = Map.empty\<rparr>"

definition seen_agent :: "real QLearningAgent" where
  "seen_agent =
     default_agent\<lparr>Q := [(''b'', 2) \<mapsto> 1, (''b'', 5) \<mapsto> 3, (''a'', 4) \<mapsto> 1]\<rparr>"

text \<open>Column \<open>c\<close> of a board from the top row down, and the number of its occupied cells.\<close>

definition column :: "board \<Rightarrow> nat \<Rightarrow> string list" where
  "column b c = map (\<lambda>row. row ! c) b"

definition occupied :: "board \<Rightarrow> nat \<Rightarrow> nat" where
  "occupied b c = length (filter (\<lambda>x. x \<noteq> '' '') (column b c))"

text \<open>
  What every call of \<open>play\<close> preserves: the shape of the board, a player to move who is
  \<open>"R"\<close> or \<open>"Y"\<close>, a blank top row, cells that are blank or a mark, and in rows 1 to 5 no
  blank cell directly below an occupied one.
\<close>

definition play_inv :: "Connect4 \<Rightarrow> bool" where
  "play_inv s \<longleftrightarrow>
     wf_board (board s) \<and>
     (current_player s = ''R'' \<or> current_player s = ''Y'') \<and>
     (\<forall>c < 7. board s ! 0 ! c = '' '') \<and>
     (\<forall>r < 6. \<forall>c < 7. board s ! r ! c = '' '' \<or> board s ! r ! c = ''R'' \<or>
        board s ! r ! c = ''Y'') \<and>
     (\<forall>c < 7. \<forall>r. 1 \<le> r \<and> r < 5 \<and> board s ! r ! c \<noteq> '' '' \<longrightarrow>
        board s ! Suc r ! c \<noteq> '' '')"

text \<open>
  A winning line in the words of the specification: four identical non-blank cells of the
  grid, contiguous along a row, a column or either diagonal.  \<open>line_from r c d\<close> lists the
  four positions reached from (r, c) in steps of \<open>d\<close>.
\<close>

definition line_from :: "nat \<Rightarrow> nat \<Rightarrow> int \<times> int \<Rightarrow> (int \<times> int) list" where
  "line_from r c d = map (\<lambda>k. (int r + k * fst d, int c + k * snd d)) [0, 1, 2, 3]"

definition in_grid :: "int \<times> int \<Rightarrow> bool" where
  "in_grid p \<longleftrightarrow> 0 \<le> fst p \<and> fst p < 6 \<and> 0 \<le> snd p \<and> snd p < 7"

definition four_in_a_row :: "board \<Rightarrow> nat \<Rightarrow> nat \<Rightarrow> int \<times> int \<Rightarrow> bool" where
  "four_in_a_row b r c d \<longleftrightarrow>
     list_all in_grid (line_from r c d) \<and> b ! r ! c \<noteq> '' '' \<and>
     list_all (\<lambda>p. b ! nat (fst p) ! nat (snd p) = b ! r ! c) (line_from r c d)"

definition has_line :: "board \<Rightarrow> bool" where
  "has_line b \<longleftrightarrow>
     (\<exists>r \<in> {0..<6}. \<exists>c \<in> {0..<7}. \<exists>d \<in> {(0, 1), (1, 0), (1, 1), (1, - 1)}.
        four_in_a_row b r c d)"

text \<open>
  The diagonals of one orientation, in the order of their starting positions: top to
  bottom, left to right.  A line runs right when its second cell lies right of its first.
\<close>

fun runs_right :: "line \<Rightarrow> bool" where
  "runs_right (p1, p2, p3, p4) \<longleftrightarrow> snd p1 < snd p2"

definition down_right_lines :: "line list" where
  "down_right_lines = concat (map (\<lambda>r. map (\<lambda>c. dline r c) [0..<4]) [0..<3])"

definition down_left_lines :: "line list" where
  "down_left_lines = concat (map (\<lambda>r. map (\<lambda>c. aline r c) [0..<4]) [0..<3])"

text \<open>A filled grid without a line, and a grid with a line of each mark.\<close>

definition drawn_env :: Connect4 where
  "drawn_env =
     \<lparr>board =
        [[''R'', ''R'', ''R'', ''Y'', ''R'', ''R'', ''R''],
         [''Y'', ''Y'', ''Y'', ''R'', ''Y'', ''Y'', ''Y''],
         [''R'', ''R'', ''R'', ''Y'', ''R'', ''R'', ''R''],
         [''Y'', ''Y'', ''Y'', ''R'', ''Y'', ''Y'', ''Y''],
         [''R'', ''R'', ''R'', ''Y'', ''R'', ''R'', ''R''],
         [''Y'', ''Y'', ''Y'', ''R'', ''Y'', ''Y'', ''Y'']],
      current_player = ''R''\<rparr>"

definition two_lines_env :: Connect4 where
  "two_lines_env =
     \<lparr>board =
        [['' '', '' '', '' '', '' '', '' '', '' '', '' ''],
         ['' '', '' '', '' '', '' '', '' '', '' '', '' ''],
         ['' '', '' '', '' '', '' '', '' '', '' '', ''R''],
         ['' '', '' '', '' '', '' '', '' '', '' '', ''R''],
         ['' '', '' '', '' '', '' '', '' '', '' '', ''R''],
         [''Y'', ''Y'', ''Y'', ''Y'', '' '', '' '', ''R'']],
      current_player = ''Y''\<rparr>"

text \<open>A column that \<open>play\<close> can put a mark into.\<close>

definition playable :: "board \<Rightarrow> nat \<Rightarrow> bool" where
  "playable b c \<longleftrightarrow> lowest_blank b c \<noteq> None"

section \<open>Auxiliary facts\<close>

subsection \<open>Subscripts, loops and lists\<close>

lemma norm_index_nat: "k < n \<Longrightarrow> norm_index n (int k) = Inr k"
  by (simp add: norm_index_def)

lemma norm_index_lt: "norm_index n i = Inr k \<Longrightarrow> k < n"
  by (auto simp add: norm_index_def split: if_splits)

lemma for_return_map: "for_return (map h xs) body = for_return xs (\<lambda>x. body (h x))"
  by (induction xs) (simp_all split: sum.split option.split)

lemma for_return_Some:
  "for_return xs body = Inr (Some r) \<Longrightarrow> \<exists>i \<in> set xs. body i = Inr (Some r)"
  by (induction xs) (auto split: sum.splits option.splits)

lemma find_append:
  "find P (xs @ ys) = (case find P xs of None \<Rightarrow> find P ys | Some x \<Rightarrow> Some x)"
  by (induction xs) simp_all

lemma find_None_Bex: "find P xs = None \<longleftrightarrow> \<not> (\<exists>x \<in> set xs. P x)"
  by (induction xs) simp_all

lemma int_plus:
  "int n + 1 = int (n + 1)" "int n + 2 = int (n + 2)" "int n + 3 = int (n + 3)"
  by simp_all

lemma int_lists:
  "[0..6] = map int [0..<7]" "[0..5] = map int [0..<6]"
  "[0..3] = map int [0..<4]" "[0..2] = map int [0..<3]"
  by (simp_all add: upto_rec1 upt_rec)

lemma upt_lists:
  "[0..<3] = [0, 1, 2]" "[0..<4] = [0, 1, 2, 3]" "[0..<6] = [0, 1, 2, 3, 4, 5]"
  "[0..<7] = [0, 1, 2, 3, 4, 5, 6]"
  by (simp_all add: upt_rec)

lemma concat_map_single: "concat (map (\<lambda>x. [f x]) xs) = map f xs"
  by (induction xs) simp_all

subsection \<open>Boards of six rows and seven columns\<close>

lemma wf_board_row: "wf_board b \<Longrightarrow> r < 6 \<Longrightarrow> length (b ! r) = 7"
  by (simp add: wf_board_def)

lemma wf_board_len: "wf_board b \<Longrightarrow> length b = 6"
  by (simp add: wf_board_def)

lemma wf_init: "wf_board (board Connect4_init)"
  by (simp add: Connect4_init_def wf_board_def)

lemma wf_full_board_env: "wf_board (board full_board_env)"
  by (simp add: full_board_env_def wf_board_def)

lemma wf_drawn_env: "wf_board (board drawn_env)"
  by (simp add: drawn_env_def wf_board_def)

lemma wf_two_lines_env: "wf_board (board two_lines_env)"
  by (simp add: two_lines_env_def wf_board_def)

lemma init_cell: "r < 6 \<Longrightarrow> c < 7 \<Longrightarrow> board Connect4_init ! r ! c = '' ''"
  by (simp add: Connect4_init_def)

lemma full_board_env_cell: "r < 6 \<Longrightarrow> c < 7 \<Longrightarrow> board full_board_env ! r ! c = ''R''"
  by (simp add: full_board_env_def)

subsection \<open>What a call of play does\<close>

text \<open>
  On a board of the right shape \<open>play\<close> raises exactly when the column index is out of
  range; otherwise it fills the lowest blank cell among rows 5 to 1, or fails and changes
  nothing.
\<close>

lemma play_body_wf_any:
  assumes "wf_board (board s)" "r < 6"
  shows "play_body s col (int r) =
           (case norm_index 7 col of
              Inl e \<Rightarrow> Inl e
            | Inr c \<Rightarrow>
                if board s ! r ! c = '' '' then Inr (Some (True, place s r c)) else Inr None)"
  using assms
  by (simp add: play_body_def norm_index_nat wf_board_def place_def other_player_def
      split: sum.split)

lemma play_loop_wf_any:
  assumes "wf_board (board s)" "norm_index 7 col = Inr c" "\<forall>r \<in> set rs. r < 6"
  shows "for_return (map int rs) (play_body s col) =
           (case find (\<lambda>r. board s ! r ! c = '' '') rs of
              None \<Rightarrow> Inr None
            | Some r \<Rightarrow> Inr (Some (True, place s r c)))"
  using assms by (induction rs) (simp_all add: play_body_wf_any)

lemma play_wf_any:
  assumes "wf_board (board s)"
  shows "play col s =
           (case norm_index 7 col of
              Inl e \<Rightarrow> Inl e
            | Inr c \<Rightarrow>
                (case lowest_blank (board s) c of
                   None \<Rightarrow> Inr (False, s)
                 | Some r \<Rightarrow> Inr (True, place s r c)))"
proof (cases "norm_index 7 col")
  case (Inl e)
  then have "play_body s col 5 = Inl e"
    using play_body_wf_any [OF assms, of 5 col] by simp
  then show ?thesis using Inl by (simp add: play_def)
next
  case (Inr c)
  have "play col s = (case for_return (map int [5, 4, 3, 2, 1]) (play_body s col) of
        Inl e \<Rightarrow> Inl e | Inr (Some r) \<Rightarrow> Inr r | Inr None \<Rightarrow> Inr (False, s))"
    by (simp add: play_def)
  also have "\<dots> = (case find (\<lambda>r. board s ! r ! c = '' '') [5, 4, 3, 2, 1] of
              None \<Rightarrow> Inr (False, s)
            | Some r \<Rightarrow> Inr (True, place s r c))"
    using assms Inr by (subst play_loop_wf_any [where c = c]) (simp_all split: option.split)
  finally show ?thesis using Inr by (simp add: lowest_blank_def)
qed

lemma play_wf_lowest:
  assumes "wf_board (board s)" "c < 7"
  shows "play (int c) s =
           (case lowest_blank (board s) c of
              None \<Rightarrow> Inr (False, s)
            | Some r \<Rightarrow> Inr (True, place s r c))"
  using play_wf_any [OF assms(1), of "int c"] assms(2) by (simp add: norm_index_nat)

lemma play_body_Some: "play_body s col row = Inr (Some (ok, s')) \<Longrightarrow> ok"
  by (auto simp add: play_body_def split: sum.splits if_splits)

lemma play_False_same:
  assumes "play col s = Inr (False, s')"
  shows "s' = s"
proof (cases "for_return [5, 4, 3, 2, 1] (play_body s col)")
  case (Inl e)
  with assms show ?thesis by (simp add: play_def)
next
  case (Inr m)
  show ?thesis
  proof (cases m)
    case None
    with Inr assms show ?thesis by (simp add: play_def)
  next
    case (Some r)
    with Inr assms have "for_return [5, 4, 3, 2, 1] (play_body s col) = Inr (Some (False, s'))"
      by (simp add: play_def)
    then have "\<exists>i \<in> set [5, 4, 3, 2, 1]. play_body s col i = Inr (Some (False, s'))"
      by (rule for_return_Some)
    then obtain i where "play_body s col i = Inr (Some (False, s'))"
      by blast
    then show ?thesis using play_body_Some by blast
  qed
qed

lemma lowest_blank_None:
  "lowest_blank b c = None \<longleftrightarrow> (\<forall>r. 1 \<le> r \<and> r < 6 \<longrightarrow> b ! r ! c \<noteq> '' '')"
proof -
  have "set [5, 4, 3, 2, 1] = {r::nat. 1 \<le> r \<and> r < 6}" by auto
  then show ?thesis
    unfolding lowest_blank_def find_None_iff by blast
qed

lemma lowest_blank_Some:
  assumes "lowest_blank b c = Some r"
  shows "1 \<le> r" "r < 6" "b ! r ! c = '' ''" "\<And>r'. r < r' \<Longrightarrow> r' < 6 \<Longrightarrow> b ! r' ! c \<noteq> '' ''"
proof -
  show "1 \<le> r" "r < 6" "b ! r ! c = '' ''"
    using assms by (auto simp add: lowest_blank_def split: if_splits)
  fix r' assume "r < r'" "r' < 6"
  then have "r' = 1 \<or> r' = 2 \<or> r' = 3 \<or> r' = 4 \<or> r' = 5" by arith
  then show "b ! r' ! c \<noteq> '' ''"
    using assms \<open>r < r'\<close> by (auto simp add: lowest_blank_def split: if_splits)
qed

lemma lowest_blank_cong:
  assumes "\<forall>r < 6. b' ! r ! c = b ! r ! c"
  shows "lowest_blank b' c = lowest_blank b c"
  using assms by (simp add: lowest_blank_def)

lemma init_lowest_blank: "c < 7 \<Longrightarrow> lowest_blank (board Connect4_init) c = Some 5"
  by (simp add: lowest_blank_def init_cell)

lemma place_cell:
  assumes "wf_board (board s)" "r < 6" "c < 7" "r' < 6" "c' < 7"
  shows "board (place s r c) ! r' ! c' =
           (if r' = r \<and> c' = c then current_player s else board s ! r' ! c')"
  using assms by (auto simp add: place_def nth_list_update wf_board_row wf_board_len)

lemma place_wf:
  assumes "wf_board (board s)"
  shows "wf_board (board (place s r c))"
proof (cases "r < length (board s)")
  case True
  then have "board s ! r \<in> set (board s)" by simp
  then have "length ((board s ! r)[c := current_player s]) = 7"
    using assms by (simp add: wf_board_def)
  moreover have "set ((board s)[r := (board s ! r)[c := current_player s]]) \<subseteq>
      insert ((board s ! r)[c := current_player s]) (set (board s))"
    by (rule set_update_subset_insert)
  ultimately show ?thesis
    using assms by (auto simp add: place_def wf_board_def)
next
  case False
  then show ?thesis using assms by (simp add: place_def list_update_beyond)
qed

lemma place_player: "current_player (place s r c) = other_player (current_player s)"
  by (simp add: place_def)

lemma play_body_rows:
  assumes "play_body s col row = Inr (Some (ok, s'))" "1 \<le> row" "row \<le> 5"
  shows "length (board s') = length (board s) \<and>
         (\<forall>k. k \<notin> {1..5} \<longrightarrow> board s' ! k = board s ! k)"
proof -
  obtain i where i: "norm_index (length (board s)) row = Inr i"
    using assms(1) by (cases "norm_index (length (board s)) row") (simp_all add: play_body_def)
  then have "i = nat row" using assms(2) by (simp add: norm_index_def split: if_splits)
  then have "1 \<le> i" "i \<le> 5" using assms(2,3) by linarith+
  then have r: "i \<in> {1..5}" by simp
  obtain x p where "s' = s\<lparr>board := (board s)[i := x], current_player := p\<rparr>"
    using assms(1) i by (auto simp add: play_body_def split: sum.splits if_splits)
  then have "board s' = (board s)[i := x]" by simp
  then show ?thesis using r by auto
qed

lemma play_rows:
  assumes "play col s = Inr (ok, s')"
  shows "length (board s') = length (board s) \<and>
         (\<forall>k. k \<notin> {1..5} \<longrightarrow> board s' ! k = board s ! k)"
proof (cases "for_return [5, 4, 3, 2, 1] (play_body s col)")
  case (Inl e)
  then show ?thesis using assms by (simp add: play_def)
next
  case (Inr m)
  show ?thesis
  proof (cases m)
    case None
    then show ?thesis using Inr assms by (simp add: play_def)
  next
    case (Some res)
    then have "res = (ok, s')" using Inr assms by (simp add: play_def)
    then have "for_return [5, 4, 3, 2, 1] (play_body s col) = Inr (Some (ok, s'))"
      using Inr Some by simp
    then have "\<exists>j \<in> set [5, 4, 3, 2, 1]. play_body s col j = Inr (Some (ok, s'))"
      by (rule for_return_Some)
    then obtain j where j: "j \<in> set [5, 4, 3, 2, 1::int]"
      and b: "play_body s col j = Inr (Some (ok, s'))"
      by blast
    from j have "1 \<le> j" "j \<le> 5" by auto
    with b show ?thesis by (rule play_body_rows)
  qed
qed

lemma play_first: "play 0 Connect4_init = Inr (True, place Connect4_init 5 0)"
  using play_wf_lowest [OF wf_init, of 0] by (simp add: init_lowest_blank)

lemma play_seq_five: "play_seq [0, 0, 0, 0, 0] Connect4_init = Inr five_in_column_0"
  by (simp add: play_def play_body_def norm_index_def five_in_column_0_def Connect4_init_def
      eval_nat_numeral)

subsection \<open>The invariant of play\<close>

lemma play_inv_init: "play_inv Connect4_init"
  by (simp add: play_inv_def Connect4_init_def wf_board_def)

lemma play_inv_place:
  assumes "play_inv s" "c < 7" "lowest_blank (board s) c = Some r"
  shows "play_inv (place s r c)"
proof -
  note lb = lowest_blank_Some [OF assms(3)]
  have wf: "wf_board (board s)" using assms(1) by (simp add: play_inv_def)
  have cell: "\<And>r' c'. r' < 6 \<Longrightarrow> c' < 7 \<Longrightarrow> board (place s r c) ! r' ! c' =
           (if r' = r \<and> c' = c then current_player s else board s ! r' ! c')"
    using place_cell [OF wf lb(2) assms(2)] by simp
  have p: "current_player s = ''R'' \<or> current_player s = ''Y''"
    using assms(1) by (simp add: play_inv_def)
  have "wf_board (board (place s r c))" using wf by (rule place_wf)
  moreover have "current_player (place s r c) = ''R'' \<or> current_player (place s r c) = ''Y''"
    by (simp add: place_player other_player_def)
  moreover have "\<forall>c' < 7. board (place s r c) ! 0 ! c' = '' ''"
    using assms(1) lb(1) by (simp add: cell play_inv_def)
  moreover have "\<forall>r' < 6. \<forall>c' < 7. board (place s r c) ! r' ! c' = '' '' \<or>
      board (place s r c) ! r' ! c' = ''R'' \<or> board (place s r c) ! r' ! c' = ''Y''"
    using assms(1) p by (simp add: cell play_inv_def)
  moreover have "\<forall>c' < 7. \<forall>r'. 1 \<le> r' \<and> r' < 5 \<and> board (place s r c) ! r' ! c' \<noteq> '' '' \<longrightarrow>
      board (place s r c) ! Suc r' ! c' \<noteq> '' ''"
  proof (intro allI impI)
    fix c' r'
    assume c': "c' < 7" and r': "1 \<le> r' \<and> r' < 5 \<and> board (place s r c) ! r' ! c' \<noteq> '' ''"
    have g: "\<And>c r. c < 7 \<Longrightarrow> 1 \<le> r \<Longrightarrow> r < 5 \<Longrightarrow> board s ! r ! c \<noteq> '' '' \<Longrightarrow>
        board s ! Suc r ! c \<noteq> '' ''"
      using assms(1) by (simp add: play_inv_def)
    have here: "board (place s r c) ! r' ! c' =
        (if r' = r \<and> c' = c then current_player s else board s ! r' ! c')"
      using c' r' by (simp add: cell)
    have below: "board (place s r c) ! Suc r' ! c' =
        (if Suc r' = r \<and> c' = c then current_player s else board s ! Suc r' ! c')"
      using c' r' by (simp add: cell)
    show "board (place s r c) ! Suc r' ! c' \<noteq> '' ''"
    proof (cases "r' = r \<and> c' = c")
      case True
      then have "board s ! Suc r' ! c' \<noteq> '' ''" using lb(4) [of "Suc r"] r' by simp
      moreover have "\<not> (Suc r' = r \<and> c' = c)" using True by simp
      ultimately show ?thesis unfolding below by auto
    next
      case False
      then have "board s ! r' ! c' \<noteq> '' ''" using r' unfolding here by auto
      then have "board s ! Suc r' ! c' \<noteq> '' ''" using g c' r' by simp
      then show ?thesis using p by (auto simp add: below)
    qed
  qed
  ultimately show ?thesis unfolding play_inv_def by blast
qed

lemma play_inv_play:
  assumes "play_inv s" "play col s = Inr (ok, s')"
  shows "play_inv s'"
proof -
  have wf: "wf_board (board s)" using assms(1) by (simp add: play_inv_def)
  show ?thesis
  proof (cases "norm_index 7 col")
    case (Inl e)
    then show ?thesis using assms(2) by (simp add: play_wf_any [OF wf])
  next
    case (Inr c)
    then have c: "c < 7" by (rule norm_index_lt)
    show ?thesis
    proof (cases "lowest_blank (board s) c")
      case None
      then show ?thesis using assms Inr by (simp add: play_wf_any [OF wf])
    next
      case (Some r)
      then have "s' = place s r c" using assms(2) Inr by (simp add: play_wf_any [OF wf])
      then show ?thesis using play_inv_place [OF assms(1) c Some] by simp
    qed
  qed
qed

lemma play_inv_play_seq:
  "play_inv s \<Longrightarrow> play_seq cols s = Inr s' \<Longrightarrow> play_inv s'"
proof (induction cols arbitrary: s)
  case Nil
  then show ?case by simp
next
  case (Cons col cols)
  then show ?case
    by (auto split: sum.splits prod.splits dest: play_inv_play)
qed

lemma gravity_all:
  assumes "play_inv s" "c < 7" "r < r'" "r' < 6" "board s ! r ! c \<noteq> '' ''"
  shows "board s ! r' ! c \<noteq> '' ''"
proof -
  have g: "\<And>n. 1 \<le> n \<Longrightarrow> n < 5 \<Longrightarrow> board s ! n ! c \<noteq> '' '' \<Longrightarrow> board s ! Suc n ! c \<noteq> '' ''"
    using assms(1,2) by (simp add: play_inv_def)
  have "board s ! 0 ! c = '' ''" using assms(1,2) by (simp add: play_inv_def)
  then have r1: "1 \<le> r" using assms(5) by (cases r) auto
  have "Suc r \<le> r'" using assms(3) by simp
  then show ?thesis
  proof (induction rule: dec_induct)
    case base
    show ?case using g [of r] r1 assms(3,4,5) by simp
  next
    case (step n)
    show ?case using g [of n] step r1 assms(4) by simp
  qed
qed

lemma occupied_le_length: "occupied b c \<le> length b"
  unfolding occupied_def column_def
  by (rule order_trans [OF length_filter_le]) simp

lemma occupied_top_blank:
  assumes "wf_board b" "b ! 0 ! c = '' ''"
  shows "occupied b c \<le> 5"
proof (cases b)
  case Nil
  then show ?thesis by (simp add: occupied_def column_def)
next
  case (Cons top rest)
  then have "length rest = 5" using assms(1) by (simp add: wf_board_def)
  moreover have "top ! c = '' ''" using assms(2) Cons by simp
  moreover have "length (filter (\<lambda>x. x \<noteq> '' '') (map (\<lambda>row. row ! c) rest)) \<le> length rest"
    by (rule order_trans [OF length_filter_le]) simp
  ultimately show ?thesis using Cons by (simp add: occupied_def column_def)
qed

subsection \<open>The loops of winner as a search\<close>

text \<open>
  Each loop nest of \<open>winner\<close> is a search for the first winning line in a list of lines;
  in sequence they search \<open>scan_order\<close>.
\<close>

lemma cell_wf: "wf_board b \<Longrightarrow> r < 6 \<Longrightarrow> c < 7 \<Longrightarrow> cell b (int r) (int c) = Inr (b ! r ! c)"
  by (simp add: cell_def getitem_def norm_index_nat wf_board_def)

lemma check_line_wf:
  assumes "wf_board b"
    and "r1 < 6" "c1 < 7" "r2 < 6" "c2 < 7" "r3 < 6" "c3 < 7" "r4 < 6" "c4 < 7"
  shows "check_line b (int r1, int c1) (int r2, int c2) (int r3, int c3) (int r4, int c4) =
           found b (find (wins b) [((r1, c1), (r2, c2), (r3, c3), (r4, c4))])"
  using assms by (auto simp add: check_line_def four_equal_def cell_wf found_def cell_at_def)

lemma and_then_found:
  "and_then (found b (find P xs)) (found b (find P ys)) = found b (find P (xs @ ys))"
  by (simp add: and_then_def found_def find_append split: option.split)

lemma and_then_found_rest:
  "and_then (found b (find P xs)) (and_then (found b (find P ys)) z) =
     and_then (found b (find P (xs @ ys))) z"
  by (simp add: and_then_def found_def find_append split: option.split)

lemma for_return_found:
  assumes "\<And>i. i \<in> set xs \<Longrightarrow> body i = found b (find P (g i))"
  shows "for_return xs body = found b (find P (concat (map g xs)))"
  using assms
proof (induction xs)
  case Nil
  show ?case by (simp add: found_def)
next
  case (Cons x xs)
  have "body x = found b (find P (g x))" by (simp add: Cons.prems)
  moreover have "for_return xs body = found b (find P (concat (map g xs)))"
    by (rule Cons.IH) (simp add: Cons.prems)
  ultimately show ?case
    by (simp add: found_def find_append split: option.split)
qed

lemma check_rows_wf:
  assumes "wf_board b"
  shows "check_rows b = found b (find (wins b) horizontal_lines)"
proof -
  have inner: "\<And>r c. r \<in> set [0..<6] \<Longrightarrow> c \<in> set [0..<4] \<Longrightarrow>
      check_line b (int r, int c) (int r, int c + 1) (int r, int c + 2) (int r, int c + 3) =
      found b (find (wins b) [hline r c])"
  proof -
    fix r c :: nat
    assume "r \<in> set [0..<6]" "c \<in> set [0..<4]"
    then have rc: "r < 6" "c < 7" "c + 1 < 7" "c + 2 < 7" "c + 3 < 7" by simp_all
    show "check_line b (int r, int c) (int r, int c + 1) (int r, int c + 2) (int r, int c + 3) =
      found b (find (wins b) [hline r c])"
      unfolding hline_def int_plus by (rule check_line_wf [OF assms]) (rule rc)+
  qed
  have "\<And>r. r \<in> set [0..<6] \<Longrightarrow>
      for_return [0..<4] (\<lambda>c.
        check_line b (int r, int c) (int r, int c + 1) (int r, int c + 2) (int r, int c + 3)) =
      found b (find (wins b) (map (\<lambda>c. hline r c) [0..<4]))"
    by (subst for_return_found [where b = b and P = "wins b" and g = "\<lambda>c. [hline r c]"])
       (simp_all only: inner concat_map_single)
  then have "for_return [0..<6] (\<lambda>r. for_return [0..<4] (\<lambda>c.
        check_line b (int r, int c) (int r, int c + 1) (int r, int c + 2) (int r, int c + 3))) =
      found b (find (wins b) horizontal_lines)"
    unfolding horizontal_lines_def by (rule for_return_found)
  then show ?thesis
    by (simp only: check_rows_def int_lists for_return_map)
qed

lemma check_columns_wf:
  assumes "wf_board b"
  shows "check_columns b = found b (find (wins b) vertical_lines)"
proof -
  have inner: "\<And>r c. c \<in> set [0..<7] \<Longrightarrow> r \<in> set [0..<3] \<Longrightarrow>
      check_line b (int r, int c) (int r + 1, int c) (int r + 2, int c) (int r + 3, int c) =
      found b (find (wins b) [vline r c])"
  proof -
    fix r c :: nat
    assume "c \<in> set [0..<7]" "r \<in> set [0..<3]"
    then have rc: "c < 7" "r < 6" "r + 1 < 6" "r + 2 < 6" "r + 3 < 6" by simp_all
    show "check_line b (int r, int c) (int r + 1, int c) (int r + 2, int c) (int r + 3, int c) =
      found b (find (wins b) [vline r c])"
      unfolding vline_def int_plus by (rule check_line_wf [OF assms]) (rule rc)+
  qed
  have "\<And>c. c \<in> set [0..<7] \<Longrightarrow>
      for_return [0..<3] (\<lambda>r.
        check_line b (int r, int c) (int r + 1, int c) (int r + 2, int c) (int r + 3, int c)) =
      found b (find (wins b) (map (\<lambda>r. vline r c) [0..<3]))"
    by (subst for_return_found [where b = b and P = "wins b" and g = "\<lambda>r. [vline r c]"])
       (simp_all only: inner concat_map_single)
  then have "for_return [0..<7] (\<lambda>c. for_return [0..<3] (\<lambda>r.
        check_line b (int r, int c) (int r + 1, int c) (int r + 2, int c) (int r + 3, int c))) =
      found b (find (wins b) vertical_lines)"
    unfolding vertical_lines_def by (rule for_return_found)
  then show ?thesis
    by (simp only: check_columns_def int_lists for_return_map)
qed

lemma check_diagonals_wf:
  assumes "wf_board b"
  shows "check_diagonals b = found b (find (wins b) diagonal_lines)"
proof -
  have inner: "\<And>r c. r \<in> set [0..<3] \<Longrightarrow> c \<in> set [0..<4] \<Longrightarrow>
      and_then
        (check_line b (int r, int c) (int r + 1, int c + 1) (int r + 2, int c + 2) (int r + 3, int c + 3))
        (check_line b (int r, int c + 3) (int r + 1, int c + 2) (int r + 2, int c + 1) (int r + 3, int c)) =
      found b (find (wins b) [dline r c, aline r c])"
  proof -
    fix r c :: nat
    assume "r \<in> set [0..<3]" "c \<in> set [0..<4]"
    then have rc: "r < 6" "r + 1 < 6" "r + 2 < 6" "r + 3 < 6" "c < 7" "c + 1 < 7" "c + 2 < 7" "c + 3 < 7"
      by simp_all
    have d: "check_line b (int r, int c) (int r + 1, int c + 1) (int r + 2, int c + 2) (int r + 3, int c + 3) =
        found b (find (wins b) [dline r c])"
      unfolding dline_def int_plus by (rule check_line_wf [OF assms]) (rule rc)+
    have a: "check_line b (int r, int c + 3) (int r + 1, int c + 2) (int r + 2, int c + 1) (int r + 3, int c) =
        found b (find (wins b) [aline r c])"
      unfolding aline_def int_plus by (rule check_line_wf [OF assms]) (rule rc)+
    show "and_then
        (check_line b (int r, int c) (int r + 1, int c + 1) (int r + 2, int c + 2) (int r + 3, int c + 3))
        (check_line b (int r, int c + 3) (int r + 1, int c + 2) (int r + 2, int c + 1) (int r + 3, int c)) =
      found b (find (wins b) [dline r c, aline r c])"
      unfolding d a and_then_found by simp
  qed
  have "\<And>r. r \<in> set [0..<3] \<Longrightarrow>
      for_return [0..<4] (\<lambda>c. and_then
        (check_line b (int r, int c) (int r + 1, int c + 1) (int r + 2, int c + 2) (int r + 3, int c + 3))
        (check_line b (int r, int c + 3) (int r + 1, int c + 2) (int r + 2, int c + 1) (int r + 3, int c))) =
      found b (find (wins b) (concat (map (\<lambda>c. [dline r c, aline r c]) [0..<4])))"
    by (rule for_return_found) (simp only: inner)
  then have "for_return [0..<3] (\<lambda>r. for_return [0..<4] (\<lambda>c. and_then
        (check_line b (int r, int c) (int r + 1, int c + 1) (int r + 2, int c + 2) (int r + 3, int c + 3))
        (check_line b (int r, int c + 3) (int r + 1, int c + 2) (int r + 2, int c + 1) (int r + 3, int c)))) =
      found b (find (wins b) diagonal_lines)"
    unfolding diagonal_lines_def by (rule for_return_found)
  then show ?thesis
    by (simp only: check_diagonals_def int_lists for_return_map)
qed

lemma check_draw_loop:
  assumes "wf_board b" "\<forall>c \<in> set cs. c < 7"
  shows "for_return (map int cs)
           (\<lambda>col. case cell b 0 col of Inl e \<Rightarrow> Inl e
                   | Inr v \<Rightarrow> if v = '' '' then Inr (Some None) else Inr None) =
         (if \<exists>c \<in> set cs. b ! 0 ! c = '' '' then Inr (Some None) else Inr None)"
  using assms
proof (induction cs)
  case Nil
  show ?case by simp
next
  case (Cons c cs)
  then have "c < 7" by simp
  then have "cell b 0 (int c) = Inr (b ! 0 ! c)"
    using cell_wf [OF Cons.prems(1), of 0 c] by simp
  then show ?case using Cons by simp
qed

lemma check_draw_wf:
  assumes "wf_board b"
  shows "check_draw b = (if \<exists>c < 7. b ! 0 ! c = '' '' then Inr (Some None) else Inr None)"
proof -
  have "check_draw b = (if \<exists>c \<in> set [0..<7]. b ! 0 ! c = '' '' then Inr (Some None) else Inr None)"
    unfolding check_draw_def int_lists by (rule check_draw_loop [OF assms]) simp
  then show ?thesis by simp
qed

lemma winner_wf:
  assumes "wf_board (board s)"
  shows "winner s =
           (case find (wins (board s)) scan_order of
              Some l \<Rightarrow> Inr (Some (mark_of (board s) l))
            | None \<Rightarrow> if \<exists>c < 7. board s ! 0 ! c = '' '' then Inr None else Inr (Some ''D''))"
proof -
  have "and_then (check_rows (board s))
          (and_then (check_columns (board s))
            (and_then (check_diagonals (board s)) (check_draw (board s)))) =
        and_then (found (board s) (find (wins (board s)) scan_order)) (check_draw (board s))"
    unfolding check_rows_wf [OF assms] check_columns_wf [OF assms] check_diagonals_wf [OF assms]
      and_then_found_rest scan_order_def
    by simp
  then show ?thesis
    unfolding winner_def check_draw_wf [OF assms]
    by (simp add: and_then_def found_def split: option.split)
qed

lemma scan_order_range:
  assumes "l \<in> set scan_order"
  shows "fst (fst l) < 6 \<and> snd (fst l) < 7"
  using assms
  by (auto simp add: scan_order_def horizontal_lines_def vertical_lines_def diagonal_lines_def
      hline_def vline_def dline_def aline_def)

lemma wins_mark: "wins b l \<Longrightarrow> mark_of b l \<noteq> '' ''"
  by (cases l) auto

lemma mark_of_fst: "mark_of b l = b ! fst (fst l) ! snd (fst l)"
  by (cases l) (simp add: cell_at_def)

lemma winner_play_inv:
  assumes "play_inv s"
  shows "winner s = Inr None \<or> winner s = Inr (Some ''R'') \<or> winner s = Inr (Some ''Y'')"
proof -
  have wf: "wf_board (board s)" using assms by (simp add: play_inv_def)
  show ?thesis
  proof (cases "find (wins (board s)) scan_order")
    case None
    moreover have "\<exists>c < 7. board s ! 0 ! c = '' ''"
      using assms by (auto simp add: play_inv_def intro: exI [of _ 0])
    ultimately show ?thesis by (simp add: winner_wf [OF wf])
  next
    case (Some l)
    then have w: "wins (board s) l" and m: "l \<in> set scan_order"
      by (auto simp add: find_Some_iff)
    have "fst (fst l) < 6 \<and> snd (fst l) < 7" using m by (rule scan_order_range)
    then have "mark_of (board s) l = '' '' \<or> mark_of (board s) l = ''R'' \<or>
        mark_of (board s) l = ''Y''"
      using assms unfolding mark_of_fst by (simp add: play_inv_def)
    then have "mark_of (board s) l = ''R'' \<or> mark_of (board s) l = ''Y''"
      using wins_mark [OF w] by simp
    then show ?thesis using Some by (auto simp add: winner_wf [OF wf])
  qed
qed

lemma diagonal_orientations:
  "filter runs_right diagonal_lines = down_right_lines"
  "filter (\<lambda>l. \<not> runs_right l) diagonal_lines = down_left_lines"
  by (simp_all add: diagonal_lines_def down_right_lines_def down_left_lines_def upt_lists
      dline_def aline_def)

lemma find_two_lines: "find (wins (board two_lines_env)) scan_order = Some (hline 5 0)"
  by (simp add: scan_order_def horizontal_lines_def upt_lists hline_def cell_at_def
      two_lines_env_def)

subsection \<open>Lines in the words of the specification\<close>

text \<open>
  The lines \<open>winner\<close> looks at are all the lines of four there are in the grid.
\<close>

lemma ex_horizontal_lines:
  "(\<exists>l \<in> set horizontal_lines. P l) \<longleftrightarrow> (\<exists>r c. r < 6 \<and> c < 4 \<and> P (hline r c))"
proof -
  have "set horizontal_lines = (\<Union>r \<in> {0..<6}. (\<lambda>c. hline r c) ` {0..<4})"
    by (simp add: horizontal_lines_def)
  then show ?thesis by fastforce
qed

lemma ex_vertical_lines:
  "(\<exists>l \<in> set vertical_lines. P l) \<longleftrightarrow> (\<exists>r c. r < 3 \<and> c < 7 \<and> P (vline r c))"
proof -
  have "set vertical_lines = (\<Union>c \<in> {0..<7}. (\<lambda>r. vline r c) ` {0..<3})"
    by (simp add: vertical_lines_def)
  then show ?thesis by fastforce
qed

lemma ex_diagonal_lines:
  "(\<exists>l \<in> set diagonal_lines. P l) \<longleftrightarrow>
     (\<exists>r c. r < 3 \<and> c < 4 \<and> (P (dline r c) \<or> P (aline r c)))"
proof -
  have "set diagonal_lines = (\<Union>r \<in> {0..<3}. \<Union>c \<in> {0..<4}. {dline r c, aline r c})"
    by (simp add: diagonal_lines_def)
  then show ?thesis by fastforce
qed

lemma has_lineI:
  assumes "r < 6" "c < 7" "four_in_a_row b r c d" "d \<in> {(0, 1), (1, 0), (1, 1), (1, - 1)}"
  shows "has_line b"
proof -
  have "r \<in> {0..<6}" "c \<in> {0..<7}" using assms(1,2) by simp_all
  then show ?thesis unfolding has_line_def using assms(3,4) by blast
qed

lemma four_right: "four_in_a_row b r c (0, 1) \<longleftrightarrow> r < 6 \<and> c < 4 \<and> wins b (hline r c)"
  by (auto simp add: four_in_a_row_def line_from_def in_grid_def hline_def cell_at_def
      nat_add_distrib)

lemma four_down: "four_in_a_row b r c (1, 0) \<longleftrightarrow> r < 3 \<and> c < 7 \<and> wins b (vline r c)"
  by (auto simp add: four_in_a_row_def line_from_def in_grid_def vline_def cell_at_def
      nat_add_distrib)

lemma four_down_right: "four_in_a_row b r c (1, 1) \<longleftrightarrow> r < 3 \<and> c < 4 \<and> wins b (dline r c)"
  by (auto simp add: four_in_a_row_def line_from_def in_grid_def dline_def cell_at_def
      nat_add_distrib)

lemma four_down_left:
  "four_in_a_row b r (c + 3) (1, - 1) \<longleftrightarrow> r < 3 \<and> c < 4 \<and> wins b (aline r c)"
  by (auto simp add: four_in_a_row_def line_from_def in_grid_def aline_def cell_at_def
      nat_add_distrib)

lemma has_line_scan_order: "has_line b \<longleftrightarrow> (\<exists>l \<in> set scan_order. wins b l)"
proof
  assume "has_line b"
  then obtain r c d where m: "r \<in> {0..<6}" "c \<in> {0..<7}"
    "d \<in> {(0, 1), (1, 0), (1, 1), (1, - 1)}" and f: "four_in_a_row b r c d"
    unfolding has_line_def by blast
  from m have rc: "r < 6" "c < 7"
    and d: "d = (0, 1) \<or> d = (1, 0) \<or> d = (1, 1) \<or> d = (1, - 1)"
    by simp_all
  from d consider "d = (0, 1)" | "d = (1, 0)" | "d = (1, 1)" | "d = (1, - 1)" by blast
  then show "\<exists>l \<in> set scan_order. wins b l"
  proof cases
    case 1
    then have "r < 6 \<and> c < 4 \<and> wins b (hline r c)" using f by (simp add: four_right)
    then have "\<exists>l \<in> set horizontal_lines. wins b l"
      unfolding ex_horizontal_lines by blast
    then show ?thesis by (auto simp add: scan_order_def)
  next
    case 2
    then have "r < 3 \<and> c < 7 \<and> wins b (vline r c)" using f by (simp add: four_down)
    then have "\<exists>l \<in> set vertical_lines. wins b l"
      unfolding ex_vertical_lines by blast
    then show ?thesis by (auto simp add: scan_order_def)
  next
    case 3
    then have "r < 3 \<and> c < 4 \<and> wins b (dline r c)" using f by (simp add: four_down_right)
    then have "\<exists>l \<in> set diagonal_lines. wins b l"
      unfolding ex_diagonal_lines by blast
    then show ?thesis by (auto simp add: scan_order_def)
  next
    case 4
    then have "in_grid (int r + 3 * 1, int c + 3 * (- 1))"
      using f by (simp add: four_in_a_row_def line_from_def)
    then have "3 \<le> c" by (simp add: in_grid_def)
    then obtain c' where c': "c = c' + 3" by (metis le_add_diff_inverse2)
    then have "r < 3 \<and> c' < 4 \<and> wins b (aline r c')"
      using f 4 by (simp add: four_down_left)
    then have "\<exists>l \<in> set diagonal_lines. wins b l"
      unfolding ex_diagonal_lines by blast
    then show ?thesis by (auto simp add: scan_order_def)
  qed
next
  assume "\<exists>l \<in> set scan_order. wins b l"
  then consider "\<exists>l \<in> set horizontal_lines. wins b l" | "\<exists>l \<in> set vertical_lines. wins b l"
    | "\<exists>l \<in> set diagonal_lines. wins b l"
    by (auto simp add: scan_order_def)
  then show "has_line b"
  proof cases
    case 1
    then obtain r c where "r < 6" "c < 4" "wins b (hline r c)"
      unfolding ex_horizontal_lines by blast
    then have "r < 6" "c < 7" "four_in_a_row b r c (0, 1)" by (simp_all add: four_right)
    then show ?thesis by (rule has_lineI) simp_all
  next
    case 2
    then obtain r c where "r < 3" "c < 7" "wins b (vline r c)"
      unfolding ex_vertical_lines by blast
    then have "r < 6" "c < 7" "four_in_a_row b r c (1, 0)" by (simp_all add: four_down)
    then show ?thesis by (rule has_lineI) simp_all
  next
    case 3
    then obtain r c where rc: "r < 3" "c < 4" and w: "wins b (dline r c) \<or> wins b (aline r c)"
      unfolding ex_diagonal_lines by blast
    from w show ?thesis
    proof
      assume "wins b (dline r c)"
      then have "r < 6" "c < 7" "four_in_a_row b r c (1, 1)"
        using rc by (simp_all add: four_down_right)
      then show ?thesis by (rule has_lineI) simp_all
    next
      assume "wins b (aline r c)"
      then have "r < 6" "c + 3 < 7" "four_in_a_row b r (c + 3) (1, - 1)"
        using rc by (simp_all add: four_down_left)
      then show ?thesis by (rule has_lineI) simp_all
    qed
  qed
qed

lemma no_line_init: "\<not> has_line (board Connect4_init)"
  by (simp add: has_line_def four_in_a_row_def init_cell)

lemma no_line_drawn_env: "\<not> has_line (board drawn_env)"
  unfolding has_line_scan_order
  by (simp add: scan_order_def horizontal_lines_def vertical_lines_def diagonal_lines_def
      upt_lists hline_def vline_def dline_def aline_def cell_at_def drawn_env_def)

lemma top_row_drawn_env: "\<forall>c < 7. board drawn_env ! 0 ! c \<noteq> '' ''"
proof (intro allI impI)
  fix c :: nat assume "c < 7"
  then have "c \<in> set [0..<7]" by simp
  then show "board drawn_env ! 0 ! c \<noteq> '' ''"
    unfolding upt_lists by (auto simp add: drawn_env_def)
qed

subsection \<open>The learner\<close>

lemma py_max_Max:
  fixes xs :: "'v::linorder list"
  shows "xs \<noteq> [] \<Longrightarrow> py_max xs = Inr (Max (set xs))"
proof (cases xs)
  case Nil
  then show "xs \<noteq> [] \<Longrightarrow> ?thesis" by simp
next
  case (Cons x ys)
  have "(\<lambda>y m. if y > m then y else m) = (max :: 'v \<Rightarrow> 'v \<Rightarrow> 'v)"
    by (auto simp add: fun_eq_iff max_def)
  moreover have "fold max ys x = Max (set (x # ys))"
    by (rule Max.set_eq_fold [symmetric])
  ultimately show ?thesis
    using Cons by (simp del: set_simps)
qed

lemma next_values_set:
  "set (map (\<lambda>a. Q_get q (s', a)) [0..6]) = (\<lambda>a. Q_get q (s', a)) ` {0..6}"
  by simp

lemma valid_actions_none:
  assumes "wf_board (board env)"
    and "\<forall>c \<in> set cs. c < 7 \<and> lowest_blank (board env) c = None"
  shows "valid_actions_of (map int cs) env = Inr ([], env)"
  using assms by (induction cs) (simp_all add: play_wf_lowest)

lemma play_step:
  assumes "wf_board (board env)" "m < 7"
  shows "\<exists>env1. play (int m) env = Inr (playable (board env) m, env1) \<and>
           wf_board (board env1) \<and>
           current_player env1 =
             (if playable (board env) m then other_player (current_player env)
              else current_player env) \<and>
           (\<forall>r < 6. \<forall>c < 7. board env1 ! r ! c =
              (if c = m \<and> lowest_blank (board env) m = Some r then current_player env
               else board env ! r ! c))"
proof (cases "lowest_blank (board env) m")
  case None
  then show ?thesis using assms by (simp add: play_wf_lowest playable_def)
next
  case (Some r0)
  note lb = lowest_blank_Some [OF Some]
  have "play (int m) env = Inr (playable (board env) m, place env r0 m)"
    using assms Some by (simp add: play_wf_lowest playable_def)
  moreover have "wf_board (board (place env r0 m))" using assms(1) by (rule place_wf)
  moreover have "current_player (place env r0 m) =
      (if playable (board env) m then other_player (current_player env) else current_player env)"
    using Some by (simp add: place_player playable_def)
  moreover have "\<forall>r < 6. \<forall>c < 7. board (place env r0 m) ! r ! c =
      (if c = m \<and> lowest_blank (board env) m = Some r then current_player env
       else board env ! r ! c)"
    using place_cell [OF assms(1) lb(2) assms(2)] Some by auto
  ultimately show ?thesis by blast
qed

lemma valid_actions_from:
  assumes "wf_board (board env)" "m \<le> 7"
  shows "\<exists>env'. valid_actions_of (map int [m..<7]) env =
             Inr (map int (filter (playable (board env)) [m..<7]), env') \<and>
           wf_board (board env') \<and>
           current_player env' =
             (other_player ^^ length (filter (playable (board env)) [m..<7])) (current_player env) \<and>
           (\<forall>r < 6. \<forall>c < 7. board env' ! r ! c =
              (if m \<le> c \<and> lowest_blank (board env) c = Some r
               then (other_player ^^ length (filter (playable (board env)) [m..<c]))
                      (current_player env)
               else board env ! r ! c))"
  using assms
proof (induction "7 - m" arbitrary: m env)
  case 0
  then have "m = 7" by simp
  then show ?case using "0.prems"(1) by simp
next
  case (Suc n)
  then have m: "m < 7" and n: "n = 7 - Suc m" and m': "Suc m \<le> 7" by simp_all
  obtain env1 where p: "play (int m) env = Inr (playable (board env) m, env1)"
    and wf1: "wf_board (board env1)"
    and cp1: "current_player env1 =
             (if playable (board env) m then other_player (current_player env)
              else current_player env)"
    and b1: "\<forall>r < 6. \<forall>c < 7. board env1 ! r ! c =
              (if c = m \<and> lowest_blank (board env) m = Some r then current_player env
               else board env ! r ! c)"
    using play_step [OF Suc.prems(1) m] by blast
  have same: "\<And>c. c < 7 \<Longrightarrow> c \<noteq> m \<Longrightarrow> lowest_blank (board env1) c = lowest_blank (board env) c"
    by (rule lowest_blank_cong) (simp add: b1)
  then have same_p: "\<And>c. c < 7 \<Longrightarrow> c \<noteq> m \<Longrightarrow> playable (board env1) c = playable (board env) c"
    by (simp add: playable_def)
  have filt: "\<And>c. c \<le> 7 \<Longrightarrow>
      filter (playable (board env1)) [Suc m..<c] = filter (playable (board env)) [Suc m..<c]"
    by (rule filter_cong) (auto simp add: same_p)
  obtain env' where v: "valid_actions_of (map int [Suc m..<7]) env1 =
             Inr (map int (filter (playable (board env1)) [Suc m..<7]), env')"
    and wf': "wf_board (board env')"
    and cp': "current_player env' =
             (other_player ^^ length (filter (playable (board env1)) [Suc m..<7]))
               (current_player env1)"
    and b': "\<forall>r < 6. \<forall>c < 7. board env' ! r ! c =
              (if Suc m \<le> c \<and> lowest_blank (board env1) c = Some r
               then (other_player ^^ length (filter (playable (board env1)) [Suc m..<c]))
                      (current_player env1)
               else board env1 ! r ! c)"
    using Suc.hyps(1) [OF n wf1 m'] by blast
  have up: "[m..<7] = m # [Suc m..<7]" using m by (simp add: upt_rec)
  have "valid_actions_of (map int [m..<7]) env =
             Inr (map int (filter (playable (board env)) [m..<7]), env')"
    unfolding up using p v by (simp add: filt)
  moreover have "current_player env' =
      (other_player ^^ length (filter (playable (board env)) [m..<7])) (current_player env)"
    unfolding up cp' cp1 by (simp add: filt funpow_swap1)
  moreover have "\<forall>r < 6. \<forall>c < 7. board env' ! r ! c =
              (if m \<le> c \<and> lowest_blank (board env) c = Some r
               then (other_player ^^ length (filter (playable (board env)) [m..<c]))
                      (current_player env)
               else board env ! r ! c)"
  proof (intro allI impI)
    fix r c :: nat
    assume r: "r < 6" and c: "c < 7"
    consider "c < m" | "c = m" | "m < c" by linarith
    then show "board env' ! r ! c =
              (if m \<le> c \<and> lowest_blank (board env) c = Some r
               then (other_player ^^ length (filter (playable (board env)) [m..<c]))
                      (current_player env)
               else board env ! r ! c)"
    proof cases
      case 1
      then show ?thesis using r c b' b1 by simp
    next
      case 2
      then show ?thesis using r c b' b1 by simp
    next
      case 3
      then have upc: "[m..<c] = m # [Suc m..<c]" by (simp add: upt_rec)
      have "lowest_blank (board env1) c = lowest_blank (board env) c"
        using same [OF c] 3 by simp
      moreover have "board env1 ! r ! c = board env ! r ! c" using b1 r c 3 by simp
      moreover have "(other_player ^^ length (filter (playable (board env1)) [Suc m..<c]))
            (current_player env1) =
          (other_player ^^ length (filter (playable (board env)) [m..<c])) (current_player env)"
        unfolding upc cp1 using c by (simp add: filt funpow_swap1)
      ultimately show ?thesis using b' r c 3 by simp
    qed
  qed
  ultimately show ?case using wf' by blast
qed

lemma best_step_fst: "fst (best_step q st a best) = a \<or> fst (best_step q st a best) = fst best"
  by (simp add: best_step_def Let_def)

lemma fold_best_mem: "fst (fold (best_step q st) xs best) \<in> insert (fst best) (set xs)"
proof (induction xs arbitrary: best)
  case Nil
  show ?case by simp
next
  case (Cons a xs)
  have "fst (fold (best_step q st) xs (best_step q st a best)) \<in>
      insert (fst (best_step q st a best)) (set xs)"
    by (rule Cons.IH)
  then show ?case using best_step_fst [of q st a best] by auto
qed

lemma chosen_valid:
  assumes "acts \<noteq> []"
  shows "fst (fold (best_step q st) acts (hd acts, None)) \<in> set acts"
  using fold_best_mem [of q st acts "(hd acts, None)"] assms by (cases acts) auto

lemma funpow_other_player:
  assumes "p = ''R'' \<or> p = ''Y''"
  shows "(other_player ^^ n) p = ''R'' \<or> (other_player ^^ n) p = ''Y''"
  using assms by (induction n) (auto simp add: other_player_def)

section \<open>The claims\<close>

text \<open>
  C1.  \<open>play(c)\<close> is to put the mark into the lowest blank cell of column \<open>c\<close> and to fail
  exactly when the column has no blank cell.  It does not: after five marks in column 0
  the top cell of the column is still blank, and the sixth call returns \<open>False\<close> and
  places nothing, because the loop of \<open>play\<close> stops at row 1.
\<close>

theorem play_rejects_sixth_mark:
  "play_seq [0, 0, 0, 0, 0] Connect4_init = Inr five_in_column_0 \<and>
   board five_in_column_0 ! 0 ! 0 = '' '' \<and>
   play 0 five_in_column_0 = Inr (False, five_in_column_0)"
  by (simp add: play_def play_body_def norm_index_def five_in_column_0_def Connect4_init_def
      eval_nat_numeral)

text \<open>
  C2.  When the exploration branch is not taken (\<open>random.random()\<close> is at least 0.1),
  \<open>choose_action\<close> on a six-by-seven board with \<open>"R"\<close> or \<open>"Y"\<close> to move calls \<open>play\<close> on the
  columns 0 to 6 in turn and hands back the environment those calls leave: in every
  column that can take a mark the lowest blank cell of rows 5 to 1 now holds the mark of
  the player whose turn it was when that column was tried, every other cell is as before,
  and \<open>current_player\<close> has been flipped once for each mark placed.  Nothing is undone.
  The action returned is \<open>None\<close> when no column took a mark and one of the columns that
  did otherwise.
\<close>

theorem choose_action_exploit_plays_every_column:
  assumes "wf_board (board env)"
    and "current_player env = ''R'' \<or> current_player env = ''Y''"
    and "1 / 10 \<le> u"
  shows "\<exists>a env'. choose_action ag env u k = Inr (a, env') \<and>
     valid_actions_of [0..6] env = Inr (map int (filter (playable (board env)) [0..<7]), env') \<and>
     (a = None \<longleftrightarrow> filter (playable (board env)) [0..<7] = []) \<and>
     (\<forall>c. a = Some c \<longrightarrow> c \<in> set (map int (filter (playable (board env)) [0..<7]))) \<and>
     current_player env' =
       (other_player ^^ length (filter (playable (board env)) [0..<7])) (current_player env) \<and>
     (\<forall>r < 6. \<forall>c < 7. board env' ! r ! c =
        (if lowest_blank (board env) c = Some r
         then (other_player ^^ length (filter (playable (board env)) [0..<c])) (current_player env)
         else board env ! r ! c)) \<and>
     (\<forall>r < 6. \<forall>c < 7. lowest_blank (board env) c = Some r \<longrightarrow>
        board env ! r ! c = '' '' \<and> board env' ! r ! c \<noteq> '' '')"
proof -
  let ?acts = "map int (filter (playable (board env)) [0..<7])"
  obtain env' where v: "valid_actions_of (map int [0..<7]) env = Inr (?acts, env')"
    and cp: "current_player env' =
       (other_player ^^ length (filter (playable (board env)) [0..<7])) (current_player env)"
    and b: "\<forall>r < 6. \<forall>c < 7. board env' ! r ! c =
        (if 0 \<le> c \<and> lowest_blank (board env) c = Some r
         then (other_player ^^ length (filter (playable (board env)) [0..<c])) (current_player env)
         else board env ! r ! c)"
    using valid_actions_from [OF assms(1), of 0] by auto
  have v': "valid_actions_of [0..6] env = Inr (?acts, env')"
    using v by (simp only: int_lists)
  define a where "a = (if ?acts = [] then None
      else Some (fst (fold (best_step (Q ag) (get_state env)) ?acts (hd ?acts, None))))"
  have ch: "choose_action ag env u k = Inr (a, env')"
    using assms(3) v' by (simp add: choose_action_def a_def Let_def)
  have none: "a = None \<longleftrightarrow> filter (playable (board env)) [0..<7] = []"
    by (simp add: a_def)
  have mem: "\<forall>c. a = Some c \<longrightarrow> c \<in> set ?acts"
    using chosen_valid [of ?acts "Q ag" "get_state env"] by (auto simp add: a_def)
  have b2: "\<forall>r < 6. \<forall>c < 7. board env' ! r ! c =
        (if lowest_blank (board env) c = Some r
         then (other_player ^^ length (filter (playable (board env)) [0..<c])) (current_player env)
         else board env ! r ! c)"
    using b by simp
  have placed: "\<forall>r < 6. \<forall>c < 7. lowest_blank (board env) c = Some r \<longrightarrow>
        board env ! r ! c = '' '' \<and> board env' ! r ! c \<noteq> '' ''"
  proof (intro allI impI)
    fix r c :: nat
    assume r: "r < 6" and c: "c < 7" and lb: "lowest_blank (board env) c = Some r"
    have "board env' ! r ! c =
        (other_player ^^ length (filter (playable (board env)) [0..<c])) (current_player env)"
      using b2 r c lb by simp
    then have "board env' ! r ! c \<noteq> '' ''"
      using funpow_other_player [OF assms(2), of "length (filter (playable (board env)) [0..<c])"]
      by auto
    then show "board env ! r ! c = '' '' \<and> board env' ! r ! c \<noteq> '' ''"
      using lowest_blank_Some(3) [OF lb] by simp
  qed
  show ?thesis
    using ch v' none mem cp b2 placed by blast
qed

theorem choose_action_exploit_plays_every_column_witness:
  "\<exists>a env'. choose_action default_agent Connect4_init (1 / 2) 3 = Inr (a, env') \<and>
     board env' ! 5 ! 0 = ''R'' \<and> board env' ! 5 ! 1 = ''Y'' \<and> current_player env' = ''Y''"
proof -
  have p: "current_player Connect4_init = ''R'' \<or> current_player Connect4_init = ''Y''"
    by (simp add: Connect4_init_def)
  have u: "1 / 10 \<le> (1 / 2 :: real)" by simp
  have all: "filter (playable (board Connect4_init)) [0..<c] = [0..<c]" if "c \<le> 7" for c
    by (rule filter_True) (use that in \<open>simp add: playable_def init_lowest_blank\<close>)
  obtain a env' where ch: "choose_action default_agent Connect4_init (1 / 2) 3 = Inr (a, env')"
    and cp: "current_player env' =
       (other_player ^^ length (filter (playable (board Connect4_init)) [0..<7]))
         (current_player Connect4_init)"
    and b: "\<forall>r < 6. \<forall>c < 7. board env' ! r ! c =
        (if lowest_blank (board Connect4_init) c = Some r
         then (other_player ^^ length (filter (playable (board Connect4_init)) [0..<c]))
                (current_player Connect4_init)
         else board Connect4_init ! r ! c)"
    using choose_action_exploit_plays_every_column [OF wf_init p u, of default_agent 3]
    by blast
  have n: "length (filter (playable (board Connect4_init)) [0..<c]) = c" if "c \<le> 7" for c
    using all [OF that] by simp
  have lb: "lowest_blank (board Connect4_init) c = Some 5" if "c < 7" for c
    using that by (rule init_lowest_blank)
  have r: "current_player Connect4_init = ''R''" by (simp add: Connect4_init_def)
  have "current_player env' = (other_player ^^ 7) ''R''"
    unfolding cp r by (simp add: n)
  then have f1: "current_player env' = ''Y''"
    by (simp add: other_player_def eval_nat_numeral)
  have n0: "length (filter (playable (board Connect4_init)) [0..<0]) = 0" by (rule n) simp
  have n1: "length (filter (playable (board Connect4_init)) [0..<1]) = 1" by (rule n) simp
  have lb0: "lowest_blank (board Connect4_init) 0 = Some 5" by (rule lb) simp
  have lb1: "lowest_blank (board Connect4_init) 1 = Some 5" by (rule lb) simp
  have "board env' ! 5 ! 0 =
      (if lowest_blank (board Connect4_init) 0 = Some 5
       then (other_player ^^ length (filter (playable (board Connect4_init)) [0..<0]))
              (current_player Connect4_init)
       else board Connect4_init ! 5 ! 0)"
    by (rule b [rule_format]) simp_all
  then have "board env' ! 5 ! 0 = (other_player ^^ 0) ''R''"
    unfolding n0 lb0 r by simp
  then have f2: "board env' ! 5 ! 0 = ''R''" by (simp add: other_player_def)
  have "board env' ! 5 ! 1 =
      (if lowest_blank (board Connect4_init) 1 = Some 5
       then (other_player ^^ length (filter (playable (board Connect4_init)) [0..<1]))
              (current_player Connect4_init)
       else board Connect4_init ! 5 ! 1)"
    by (rule b [rule_format]) simp_all
  then have "board env' ! 5 ! 1 = (other_player ^^ 1) ''R''"
    unfolding n1 lb1 r by simp
  then have f3: "board env' ! 5 ! 1 = ''Y''" by (simp add: other_player_def)
  show ?thesis using ch f1 f2 f3 by blast
qed

text \<open>
  C3.  \<open>update(s, a, r, s')\<close> never raises.  It stores at \<open>(s, a)\<close> the old value (0 when
  the entry is absent) plus \<open>alpha\<close> times the gap between \<open>r + gamma * m\<close> and the old
  value, where \<open>m\<close> is the greatest of the seven values \<open>Q[s', 0], \<dots>, Q[s', 6]\<close>, absent
  entries counting as 0.  Every other entry of the table, and \<open>alpha\<close>, \<open>gamma\<close> and the
  name, stay as they were.  The operations are those of the value type, whatever they
  are; of the type only a linear order is required.
\<close>

theorem update_bellman:
  fixes ag :: "'v::{zero,plus,minus,times,linorder} QLearningAgent"
  shows "\<exists>ag'. update ag s a r s' = Inr ag' \<and>
         Q ag' (s, a) =
           Some (Q_get (Q ag) (s, a) +
                 alpha ag * (r + gamma ag * Max ((\<lambda>a'. Q_get (Q ag) (s', a')) ` {0..6})
                             - Q_get (Q ag) (s, a))) \<and>
         (\<forall>k. k \<noteq> (s, a) \<longrightarrow> Q ag' k = Q ag k) \<and>
         alpha ag' = alpha ag \<and> gamma ag' = gamma ag \<and> name ag' = name ag"
proof -
  have ne: "map (\<lambda>a'. Q_get (Q ag) (s', a')) [0..6] \<noteq> []"
    by (simp add: upto_rec1)
  have "py_max (map (\<lambda>a'. Q_get (Q ag) (s', a')) [0..6]) =
          Inr (Max ((\<lambda>a'. Q_get (Q ag) (s', a')) ` {0..6}))"
    unfolding py_max_Max [OF ne] next_values_set ..
  then show ?thesis
    by (simp add: update_def Let_def)
qed

theorem update_bellman_witness:
  "\<exists>ag'. update seen_agent ''a'' 4 2 ''b'' = Inr ag' \<and>
         Q ag' (''a'', 4) = Some (137 / 100) \<and>
         Q ag' (''b'', 5) = Some 3 \<and> Q ag' (''a'', 0) = None"
proof -
  have m: "Max ((\<lambda>a'. Q_get (Q seen_agent) (''b'', a')) ` {0..6}) = 3"
  proof (rule Max_eqI)
    show "finite ((\<lambda>a'. Q_get (Q seen_agent) (''b'', a')) ` {0..6::int})" by simp
    show "\<And>y. y \<in> (\<lambda>a'. Q_get (Q seen_agent) (''b'', a')) ` {0..6} \<Longrightarrow> y \<le> 3"
      by (auto simp add: seen_agent_def Q_get_def)
    show "3 \<in> (\<lambda>a'. Q_get (Q seen_agent) (''b'', a')) ` {0..6}"
      by (rule image_eqI [where x = 5]) (simp_all add: seen_agent_def Q_get_def)
  qed
  obtain ag' where u: "update seen_agent ''a'' 4 2 ''b'' = Inr ag'"
    and v: "Q ag' (''a'', 4) =
           Some (Q_get (Q seen_agent) (''a'', 4) +
                 alpha seen_agent * (2 + gamma seen_agent * Max ((\<lambda>a'. Q_get (Q seen_agent) (''b'', a')) ` {0..6})
                             - Q_get (Q seen_agent) (''a'', 4)))"
    and f: "\<forall>k. k \<noteq> (''a'', 4) \<longrightarrow> Q ag' k = Q seen_agent k"
    using update_bellman [of seen_agent "''a''" 4 2 "''b''"] by blast
  have "Q ag' (''a'', 4) = Some (137 / 100)"
    unfolding v m by (simp add: seen_agent_def default_agent_def Q_get_def)
  moreover have "Q ag' (''b'', 5) = Some 3" "Q ag' (''a'', 0) = None"
    using f by (simp_all add: seen_agent_def)
  ultimately show ?thesis using u by blast
qed

text \<open>
  C4, as amended.  On a six-by-seven board where no column can take a mark (rows 1 to 5
  of every column are occupied), \<open>choose_action\<close> returns \<open>None\<close> and leaves the board as
  it was whenever the exploration branch is not taken (\<open>random.random()\<close> is at least
  0.1); when that branch is taken it returns the column \<open>random.randint(0, 6)\<close> drew,
  without any test of legality.
\<close>

theorem choose_action_no_move:
  assumes "wf_board (board env)"
    and "\<forall>c < 7. \<forall>r. 1 \<le> r \<and> r < 6 \<longrightarrow> board env ! r ! c \<noteq> '' ''"
  shows "choose_action ag env u k =
           (if u < 1 / 10 then Inr (Some k, env) else Inr (None, env))"
proof -
  have "\<forall>c \<in> set [0..<7]. c < 7 \<and> lowest_blank (board env) c = None"
    using assms(2) by (simp add: lowest_blank_None)
  then have "valid_actions_of [0..6] env = Inr ([], env)"
    unfolding int_lists by (rule valid_actions_none [OF assms(1)])
  then show ?thesis
    by (simp add: choose_action_def)
qed

theorem choose_action_no_move_witness:
  "choose_action default_agent full_board_env (1 / 2) 3 = Inr (None, full_board_env)"
proof -
  have "\<forall>c < 7. \<forall>r. 1 \<le> r \<and> r < 6 \<longrightarrow> board full_board_env ! r ! c \<noteq> '' ''"
    by (simp add: full_board_env_cell)
  then show ?thesis
    using choose_action_no_move [OF wf_full_board_env, of default_agent "1 / 2" 3] by simp
qed

text \<open>
  C4 as stated fails: on the completely filled board no call of \<open>play\<close> succeeds, yet
  with the random draw 0 the exploration branch returns column 3.
\<close>

theorem choose_action_explores_on_full_board:
  "valid_actions_of [0..6] full_board_env = Inr ([], full_board_env) \<and>
   choose_action default_agent full_board_env 0 3 = Inr (Some 3, full_board_env)"
proof
  have "\<forall>c \<in> set [0..<7]. c < 7 \<and> lowest_blank (board full_board_env) c = None"
    by (simp add: lowest_blank_None full_board_env_cell)
  then show "valid_actions_of [0..6] full_board_env = Inr ([], full_board_env)"
    unfolding int_lists by (rule valid_actions_none [OF wf_full_board_env])
  show "choose_action default_agent full_board_env 0 3 = Inr (Some 3, full_board_env)"
    by (simp add: choose_action_def)
qed

text \<open>
  C5.  \<open>winner\<close> reads the grid only: the player to move does not affect its result.
  On a six-by-seven grid with no line of four it returns the draw \<open>"D"\<close> exactly when no
  cell of the top row is blank, and \<open>None\<close> (the game goes on) otherwise.  So the empty
  board gives \<open>None\<close> and a filled board without a line gives \<open>"D"\<close>.
\<close>

theorem winner_draw_iff_top_row_full:
  assumes "wf_board (board s)" and "\<not> has_line (board s)"
  shows "winner s = (if \<forall>c < 7. board s ! 0 ! c \<noteq> '' '' then Inr (Some ''D'') else Inr None) \<and>
         winner (s\<lparr>current_player := p\<rparr>) = winner s"
proof
  have "\<not> (\<exists>l \<in> set scan_order. wins (board s) l)"
    using assms(2) unfolding has_line_scan_order .
  then have "find (wins (board s)) scan_order = None"
    unfolding find_None_Bex .
  then show "winner s =
      (if \<forall>c < 7. board s ! 0 ! c \<noteq> '' '' then Inr (Some ''D'') else Inr None)"
    by (auto simp add: winner_wf [OF assms(1)])
  show "winner (s\<lparr>current_player := p\<rparr>) = winner s"
    by (simp add: winner_def)
qed

theorem winner_draw_iff_top_row_full_witness:
  "winner Connect4_init = Inr None \<and> winner drawn_env = Inr (Some ''D'')"
proof
  have "\<not> (\<forall>c < 7. board Connect4_init ! 0 ! c \<noteq> '' '')"
    using init_cell [of 0 0] by (auto intro!: exI [of _ 0])
  then show "winner Connect4_init = Inr None"
    using winner_draw_iff_top_row_full [OF wf_init no_line_init] by simp
  show "winner drawn_env = Inr (Some ''D'')"
    using winner_draw_iff_top_row_full [OF wf_drawn_env no_line_drawn_env] top_row_drawn_env
    by simp
qed

text \<open>
  C6.  After any sequence of \<open>play\<close> calls from the empty board (the successful ones
  among them are the drops), the board still has six rows of seven cells, no column holds
  more than six occupied cells, and in no column does a blank cell lie below an occupied
  one.
\<close>

theorem drops_stack_from_bottom:
  assumes "play_seq cols Connect4_init = Inr s" and "c < 7"
  shows "wf_board (board s) \<and> occupied (board s) c \<le> 6 \<and>
         (\<forall>r r'. r < r' \<and> r' < 6 \<and> board s ! r ! c \<noteq> '' '' \<longrightarrow> board s ! r' ! c \<noteq> '' '')"
proof -
  have inv: "play_inv s"
    using play_inv_init assms(1) by (rule play_inv_play_seq)
  then have wf: "wf_board (board s)" by (simp add: play_inv_def)
  then have "occupied (board s) c \<le> 6"
    using occupied_le_length [of "board s" c] by (simp add: wf_board_def)
  moreover have "\<forall>r r'. r < r' \<and> r' < 6 \<and> board s ! r ! c \<noteq> '' '' \<longrightarrow> board s ! r' ! c \<noteq> '' ''"
    using gravity_all [OF inv assms(2)] by blast
  ultimately show ?thesis using wf by simp
qed

theorem drops_stack_from_bottom_witness:
  "wf_board (board five_in_column_0) \<and> occupied (board five_in_column_0) 0 \<le> 6 \<and>
   board five_in_column_0 ! 1 ! 0 \<noteq> '' '' \<and> board five_in_column_0 ! 5 ! 0 \<noteq> '' ''"
proof -
  have c: "(0::nat) < 7" by simp
  note t = drops_stack_from_bottom [OF play_seq_five c]
  have one: "board five_in_column_0 ! 1 ! 0 \<noteq> '' ''" by (simp add: five_in_column_0_def)
  have "(1::nat) < 5 \<and> (5::nat) < 6 \<and> board five_in_column_0 ! 1 ! 0 \<noteq> '' ''"
    using one by simp
  then have "board five_in_column_0 ! 5 ! 0 \<noteq> '' ''"
    using t [THEN conjunct2, THEN conjunct2, rule_format, of 1 5] by simp
  then show ?thesis using t one by simp
qed

text \<open>
  C7.  When column \<open>c\<close> of a six-by-seven board has no blank cell, \<open>play(c)\<close> returns
  \<open>False\<close> and the state it leaves is the state it was given: every cell and
  \<open>current_player\<close>.  More generally every call that returns \<open>False\<close> leaves the state
  as it was, so \<open>current_player\<close> can change only in a call that returns \<open>True\<close>.
\<close>

theorem play_full_column_unchanged:
  assumes "wf_board (board s)" and "c < 7"
  shows "((\<forall>r < 6. board s ! r ! c \<noteq> '' '') \<longrightarrow> play (int c) s = Inr (False, s)) \<and>
         (\<forall>ok s'. play (int c) s = Inr (ok, s') \<and> \<not> ok \<longrightarrow> s' = s)"
proof
  show "(\<forall>r < 6. board s ! r ! c \<noteq> '' '') \<longrightarrow> play (int c) s = Inr (False, s)"
  proof
    assume "\<forall>r < 6. board s ! r ! c \<noteq> '' ''"
    then have "lowest_blank (board s) c = None" by (simp add: lowest_blank_None)
    then show "play (int c) s = Inr (False, s)"
      using assms by (simp add: play_wf_lowest)
  qed
  show "\<forall>ok s'. play (int c) s = Inr (ok, s') \<and> \<not> ok \<longrightarrow> s' = s"
    using play_False_same by auto
qed

theorem play_full_column_unchanged_witness:
  "play 0 full_board_env = Inr (False, full_board_env)"
proof -
  have "wf_board (board full_board_env)" by (simp add: full_board_env_def wf_board_def)
  moreover have "\<forall>r < 6. board full_board_env ! r ! 0 \<noteq> '' ''"
    by (simp add: full_board_env_def)
  ultimately show ?thesis
    using play_full_column_unchanged [of full_board_env 0] by simp
qed

text \<open>
  C8.  On every six-by-seven grid, also one with several lines of different marks,
  \<open>winner\<close> returns the mark of the first winning line in the order: the horizontal lines,
  rows from the top and each row from the left; then the vertical lines, columns from the
  left and each column from the top; then the diagonals.  The diagonals are visited by
  starting row from the top and starting column from the left, the two orientations
  taking turns at each start, so that the diagonals of either orientation come top to
  bottom, left to right.  Without a line the result is decided by the top row.
\<close>

theorem winner_reports_first_line:
  assumes "wf_board (board s)"
  shows "winner s =
           (case find (wins (board s)) scan_order of
              Some l \<Rightarrow> Inr (Some (mark_of (board s) l))
            | None \<Rightarrow> if \<exists>c < 7. board s ! 0 ! c = '' '' then Inr None else Inr (Some ''D'')) \<and>
         scan_order = horizontal_lines @ vertical_lines @ diagonal_lines \<and>
         filter runs_right diagonal_lines = down_right_lines \<and>
         filter (\<lambda>l. \<not> runs_right l) diagonal_lines = down_left_lines"
  using winner_wf [OF assms] diagonal_orientations by (simp add: scan_order_def)

theorem winner_reports_first_line_witness:
  "wins (board two_lines_env) (hline 5 0) \<and> wins (board two_lines_env) (vline 2 6) \<and>
   winner two_lines_env = Inr (Some ''Y'')"
proof -
  have "wins (board two_lines_env) (hline 5 0)" "wins (board two_lines_env) (vline 2 6)"
    by (simp_all add: hline_def vline_def cell_at_def two_lines_env_def)
  moreover have "winner two_lines_env = Inr (Some (mark_of (board two_lines_env) (hline 5 0)))"
    using winner_reports_first_line [OF wf_two_lines_env, THEN conjunct1]
    unfolding find_two_lines by simp
  then have "winner two_lines_env = Inr (Some ''Y'')"
    by (simp add: hline_def cell_at_def two_lines_env_def)
  ultimately show ?thesis by simp
qed

text \<open>
  C9, as amended.  The constructor takes \<open>alpha\<close> and \<open>gamma\<close> only, with defaults 0.1 and
  0.9, never fails, and stores whatever values it is given; the table starts empty.
  There is no \<open>epsilon\<close> option: for every agent \<open>choose_action\<close> explores exactly when
  \<open>random.random()\<close> is below the constant 0.1 (below it the drawn column is returned,
  from 0.1 on the result does not depend on the drawn column).
\<close>

theorem agent_init_accepts_any:
  fixes a g :: "'v::{zero,ord,numeral,inverse} option"
  shows "\<exists>ag. QLearningAgent_init a g = Inr ag \<and>
        alpha ag = (case a of None \<Rightarrow> 1 / 10 | Some x \<Rightarrow> x) \<and>
        gamma ag = (case g of None \<Rightarrow> 9 / 10 | Some y \<Rightarrow> y) \<and>
        Q ag = Map.empty \<and>
        (\<forall>env u k. u < 1 / 10 \<longrightarrow> choose_action ag env u k = Inr (Some k, env)) \<and>
        (\<forall>env u k k'. 1 / 10 \<le> u \<longrightarrow> choose_action ag env u k = choose_action ag env u k')"
  by (simp add: QLearningAgent_init_def choose_action_def)

theorem agent_init_accepts_any_witness:
  "\<exists>ag. QLearningAgent_init (Some (1 / 2 :: real)) None = Inr ag \<and> alpha ag = 1 / 2 \<and>
        gamma ag = 9 / 10 \<and> choose_action ag Connect4_init 0 4 = Inr (Some 4, Connect4_init) \<and>
        choose_action ag Connect4_init (1 / 2) 4 = choose_action ag Connect4_init (1 / 2) 0"
proof -
  obtain ag where "QLearningAgent_init (Some (1 / 2 :: real)) None = Inr ag"
    and "alpha ag = (case Some (1 / 2 :: real) of None \<Rightarrow> 1 / 10 | Some x \<Rightarrow> x)"
    and "gamma ag = (case None :: real option of None \<Rightarrow> 9 / 10 | Some y \<Rightarrow> y)"
    and "\<forall>env u k. u < 1 / 10 \<longrightarrow> choose_action ag env u k = Inr (Some k, env)"
    and "\<forall>env u k k'. 1 / 10 \<le> u \<longrightarrow> choose_action ag env u k = choose_action ag env u k'"
    using agent_init_accepts_any [of "Some (1 / 2 :: real)" None] by blast
  then show ?thesis by simp
qed

text \<open>
  C9 as stated fails: \<open>alpha = 5\<close> lies outside (0, 1] and the constructor returns an
  agent holding it.
\<close>

theorem agent_init_out_of_range:
  "\<not> (0 < (5::real) \<and> (5::real) \<le> 1) \<and>
   QLearningAgent_init (Some (5::real)) None =
     Inr \<lparr>name = ''QLearning Agent'', alpha = 5, gamma = 9 / 10, Q = Map.empty\<rparr>"
  by (simp add: QLearningAgent_init_def)

text \<open>
  C10.  On every board, whatever its shape, and for every column argument, a call of
  \<open>play\<close> that returns leaves the number of rows and every row other than rows 1 to 5 as
  they were; row 0 in particular.  So on every board reached from the empty board by
  \<open>play\<close> calls the top row is blank, every column holds at most five marks, and
  \<open>winner\<close> returns \<open>None\<close>, \<open>"R"\<close> or \<open>"Y"\<close>, never the draw \<open>"D"\<close>.
\<close>

theorem play_never_fills_top_row:
  "(play col s0 = Inr (ok, s1) \<longrightarrow>
      length (board s1) = length (board s0) \<and>
      (\<forall>i. i \<notin> {1..5} \<longrightarrow> board s1 ! i = board s0 ! i)) \<and>
   (play_seq cols Connect4_init = Inr s \<longrightarrow>
      (\<forall>c < 7. board s ! 0 ! c = '' '' \<and> occupied (board s) c \<le> 5) \<and>
      (winner s = Inr None \<or> winner s = Inr (Some ''R'') \<or> winner s = Inr (Some ''Y'')))"
proof (intro conjI impI)
  assume a: "play col s0 = Inr (ok, s1)"
  show "length (board s1) = length (board s0)"
    using play_rows [OF a] by simp
  show "\<forall>i. i \<notin> {1..5} \<longrightarrow> board s1 ! i = board s0 ! i"
    using play_rows [OF a] by simp
next
  assume "play_seq cols Connect4_init = Inr s"
  with play_inv_init have inv: "play_inv s" by (rule play_inv_play_seq)
  then have wf: "wf_board (board s)" and top: "\<forall>c < 7. board s ! 0 ! c = '' ''"
    by (simp_all add: play_inv_def)
  show "\<forall>c < 7. board s ! 0 ! c = '' '' \<and> occupied (board s) c \<le> 5"
    using top occupied_top_blank [OF wf] by simp
  show "winner s = Inr None \<or> winner s = Inr (Some ''R'') \<or> winner s = Inr (Some ''Y'')"
    using inv by (rule winner_play_inv)
qed

theorem play_never_fills_top_row_witness:
  "board (place Connect4_init 5 0) ! 0 = board Connect4_init ! 0 \<and>
   board five_in_column_0 ! 0 ! 0 = '' '' \<and> occupied (board five_in_column_0) 0 \<le> 5 \<and>
   winner five_in_column_0 \<noteq> Inr (Some ''D'')"
proof -
  note t = play_never_fills_top_row [of 0 Connect4_init True "place Connect4_init 5 0"
      "[0, 0, 0, 0, 0]" five_in_column_0]
  note t1 = t [THEN conjunct1, THEN mp, OF play_first]
  note t2 = t [THEN conjunct2, THEN mp, OF play_seq_five]
  have "board (place Connect4_init 5 0) ! 0 = board Connect4_init ! 0"
    using t1 [THEN conjunct2, rule_format, of 0] by simp
  moreover have "board five_in_column_0 ! 0 ! 0 = '' '' \<and> occupied (board five_in_column_0) 0 \<le> 5"
    using t2 [THEN conjunct1, rule_format, of 0] by simp
  moreover have "winner five_in_column_0 \<noteq> Inr (Some ''D'')"
    using t2 [THEN conjunct2] by auto
  ultimately show ?thesis by simp
qed

end
